theory Spec2Isabelle
  imports Main "HOL-Library.AList"
begin

section \<open>The accept-dep lexer (\<open>lexAcceptedHmrDeps\<close>, server/hmr.ts)\<close>

text \<open>
  A JavaScript string is a sequence of UTF-16 code units; \<open>charAt\<close>, \<open>length\<close> and
  the loop index of the lexer all count code units. A code unit is modelled by its
  number, a source text by the list of its code units.
\<close>

type_synonym jschar = nat
type_synonym jsstring = "jschar list"

definition js :: "string \<Rightarrow> jsstring" where
  "js s = map of_char s"

text \<open>
  The test \<open>/\s/.test(char)\<close>: the white space and line terminator code points of the
  ECMAScript grammar.
\<close>

definition isWhitespace :: "jschar \<Rightarrow> bool" where
  "isWhitespace c \<longleftrightarrow>
     c = 9 \<or> c = 10 \<or> c = 11 \<or> c = 12 \<or> c = 13 \<or> c = 32 \<or> c = 160 \<or> c = 5760 \<or>
     (8192 \<le> c \<and> c \<le> 8202) \<or> c = 8232 \<or> c = 8233 \<or> c = 8239 \<or> c = 8287 \<or>
     c = 12288 \<or> c = 65279"

datatype LexerState =
  inCall | inSingleQuoteString | inDoubleQuoteString | inTemplateString | inArray

text \<open>An element of the \<open>urls\<close> set: \<open>{ url, start, end }\<close>.\<close>

record AcceptedUrl =
  dep_url :: jsstring
  dep_start :: int
  dep_end :: int

text \<open>The error thrown by \<open>error(pos)\<close>; it carries \<open>err.pos\<close>.\<close>

datatype LexError = AcceptSyntaxError nat

text \<open>
  \<open>urls\<close> is a \<open>Set\<close> of object literals. Every \<open>add\<close> inserts a fresh object, so the
  set is the list of the objects in insertion order.
\<close>

definition addDep :: "jsstring \<Rightarrow> nat \<Rightarrow> AcceptedUrl list \<Rightarrow> AcceptedUrl list" where
  "addDep currentDep index urls =
     urls @ [\<lparr>dep_url = currentDep,
              dep_start = int index - int (length currentDep) - 1,
              dep_end = int index + 1\<rparr>]"

text \<open>
  The \<open>for\<close> loop of the lexer, with its local variables as arguments. The result is
  the \<open>urls\<close> set as the call leaves it, and either the thrown error or the returned
  \<open>selfAccepts\<close> flag. \<open>code.charAt(i + 1)\<close> past the end is the empty string, which is
  not \<open>{\<close>.
\<close>

function lex_loop ::
  "jsstring \<Rightarrow> nat \<Rightarrow> LexerState \<Rightarrow> LexerState \<Rightarrow> jsstring \<Rightarrow> AcceptedUrl list
     \<Rightarrow> AcceptedUrl list \<times> (LexError + bool)"
where
  "lex_loop code i state prevState currentDep urls =
    (if i < length code then
       (let char = code ! i in
        if state = inCall \<or> state = inArray then
          (if char = of_char (CHR 0x27) then
             lex_loop code (i + 1) inSingleQuoteString state currentDep urls
           else if char = of_char (CHR 0x22) then
             lex_loop code (i + 1) inDoubleQuoteString state currentDep urls
           else if char = of_char (CHR 0x60) then
             lex_loop code (i + 1) inTemplateString state currentDep urls
           else if isWhitespace char then
             lex_loop code (i + 1) state prevState currentDep urls
           else if state = inCall then
             (if char = of_char (CHR ''['') then
                lex_loop code (i + 1) inArray prevState currentDep urls
              else (urls, Inr True))
           else
             (if char = of_char (CHR '']'') then (urls, Inr False)
              else if char = of_char (CHR '','') then
                lex_loop code (i + 1) state prevState currentDep urls
              else (urls, Inl (AcceptSyntaxError i))))
        else if state = inSingleQuoteString then
          (if char = of_char (CHR 0x27) then
             (if prevState = inCall then (addDep currentDep i urls, Inr False)
              else lex_loop code (i + 1) prevState prevState [] (addDep currentDep i urls))
           else lex_loop code (i + 1) state prevState (currentDep @ [char]) urls)
        else if state = inDoubleQuoteString then
          (if char = of_char (CHR 0x22) then
             (if prevState = inCall then (addDep currentDep i urls, Inr False)
              else lex_loop code (i + 1) prevState prevState [] (addDep currentDep i urls))
           else lex_loop code (i + 1) state prevState (currentDep @ [char]) urls)
        else
          (if char = of_char (CHR 0x60) then
             (if prevState = inCall then (addDep currentDep i urls, Inr False)
              else lex_loop code (i + 1) prevState prevState [] (addDep currentDep i urls))
           else if char = of_char (CHR ''$'') \<and> i + 1 < length code
                   \<and> code ! (i + 1) = of_char (CHR ''{'') then
             (urls, Inl (AcceptSyntaxError i))
           else lex_loop code (i + 1) state prevState (currentDep @ [char]) urls))
     else (urls, Inr False))"
  by pat_completeness auto
termination
  by (relation "measure (\<lambda>(code, i, state, prevState, currentDep, urls). length code - i)") auto

declare lex_loop.simps [simp del]

definition lexAcceptedHmrDeps ::
  "jsstring \<Rightarrow> nat \<Rightarrow> AcceptedUrl list \<Rightarrow> AcceptedUrl list \<times> (LexError + bool)" where
  "lexAcceptedHmrDeps code start urls = lex_loop code start inCall inCall [] urls"


subsection \<open>Notions used to state the lexer's properties\<close>

text \<open>\<open>String.prototype.substring\<close>: both indices are clamped to the string and swapped when out of order.\<close>
definition substring :: "jsstring \<Rightarrow> int \<Rightarrow> int \<Rightarrow> jsstring" where
  "substring s a b =
     (let n = int (length s);
          a' = max 0 (min a n); b' = max 0 (min b n);
          lo = min a' b'; hi = max a' b'
      in take (nat (hi - lo)) (drop (nat lo) s))"

definition isStringDelimiter :: "jschar \<Rightarrow> bool" where
  "isStringDelimiter c \<longleftrightarrow> c = of_char (CHR 0x27) \<or> c = of_char (CHR 0x22) \<or> c = of_char (CHR 0x60)"

fun delimiter :: "LexerState \<Rightarrow> jschar" where
  "delimiter inSingleQuoteString = of_char (CHR 0x27)"
| "delimiter inDoubleQuoteString = of_char (CHR 0x22)"
| "delimiter inTemplateString = of_char (CHR 0x60)"
| "delimiter _ = 0"

definition outside_string :: "LexerState \<Rightarrow> bool" where
  "outside_string s \<longleftrightarrow> s = inCall \<or> s = inArray"

definition dep_span_ok :: "jsstring \<Rightarrow> AcceptedUrl \<Rightarrow> bool" where
  "dep_span_ok code d \<longleftrightarrow>
     0 \<le> dep_start d \<and> dep_end d \<le> int (length code) \<and>
     isStringDelimiter (code ! nat (dep_start d)) \<and>
     code ! nat (dep_end d - 1) = code ! nat (dep_start d) \<and>
     substring code (dep_start d + 1) (dep_end d - 1) = dep_url d \<and>
     dep_end d - dep_start d = int (length (dep_url d)) + 2"

definition lex_inv :: "jsstring \<Rightarrow> nat \<Rightarrow> LexerState \<Rightarrow> LexerState \<Rightarrow> jsstring \<Rightarrow> bool" where
  "lex_inv code i state prevState cur \<longleftrightarrow>
     (if outside_string state then cur = []
      else outside_string prevState \<and> length cur < i \<and>
           code ! (i - length cur - 1) = delimiter state \<and>
           take (length cur) (drop (i - length cur) code) = cur)"

lemma addDep_ok:
  assumes "lex_inv code i state prevState cur" "\<not> outside_string state" "i < length code"
    "code ! i = delimiter state"
  shows "dep_span_ok code \<lparr>dep_url = cur, dep_start = int i - int (length cur) - 1, dep_end = int i + 1\<rparr>"
proof -
  from assms have 1: "length cur < i" and 2: "code ! (i - length cur - 1) = delimiter state"
    and 3: "take (length cur) (drop (i - length cur) code) = cur"
    by (simp_all add: lex_inv_def)
  have d: "isStringDelimiter (delimiter state)"
    using assms(2) by (cases state) (simp_all add: isStringDelimiter_def outside_string_def)
  have n: "nat (int i - int (length cur) - 1) = i - length cur - 1" using 1 by simp
  have s: "substring code (int i - int (length cur)) (int i) = cur"
    using 1 3 assms(3) by (simp add: substring_def Let_def min_def max_def nat_diff_distrib)
  show ?thesis
    using 1 2 d n s assms(3,4) by (simp add: dep_span_ok_def)
qed

lemma lex_inv_step:
  assumes "lex_inv code i state prevState cur" "\<not> outside_string state" "i < length code"
  shows "lex_inv code (i + 1) state prevState (cur @ [code ! i])"
proof -
  from assms have 1: "length cur < i" and 2: "code ! (i - length cur - 1) = delimiter state"
    and 3: "take (length cur) (drop (i - length cur) code) = cur" and 4: "outside_string prevState"
    by (simp_all add: lex_inv_def)
  have "take (Suc (length cur)) (drop (i - length cur) code) = cur @ [code ! i]"
    using 1 3 assms(3) by (simp add: take_Suc_conv_app_nth)
  then show ?thesis using 1 2 4 assms(2) by (simp add: lex_inv_def)
qed

lemma lex_inv_enter:
  assumes "outside_string state" "i < length code" "code ! i = delimiter s'" "\<not> outside_string s'"
  shows "lex_inv code (i + 1) s' state []"
  using assms by (simp add: lex_inv_def)

lemma lex_inv_outside: "outside_string s \<Longrightarrow> lex_inv code i s p []"
  by (simp add: lex_inv_def)



definition interpolation_at :: "jsstring \<Rightarrow> nat \<Rightarrow> bool" where
  "interpolation_at code i \<longleftrightarrow>
     code ! i = of_char (CHR ''$'') \<and> i + 1 < length code \<and> code ! (i + 1) = of_char (CHR ''{'')"

lemma lex_loop_end:
  "\<not> i < length code \<Longrightarrow> lex_loop code i s p cur urls = (urls, Inr False)"
  by (subst lex_loop.simps) simp

lemma lex_loop_enter:
  "i < length code \<Longrightarrow> outside_string s \<Longrightarrow> \<not> outside_string s' \<Longrightarrow> code ! i = delimiter s' \<Longrightarrow>
   lex_loop code i s p cur urls = lex_loop code (i + 1) s' s cur urls"
  by (subst lex_loop.simps, cases s') (auto simp: Let_def outside_string_def)

lemma lex_loop_space:
  "i < length code \<Longrightarrow> outside_string s \<Longrightarrow> isWhitespace (code ! i) \<Longrightarrow>
   lex_loop code i s p cur urls = lex_loop code (i + 1) s p cur urls"
  by (subst lex_loop.simps) (auto simp: Let_def outside_string_def isWhitespace_def)

lemma lex_loop_bracket:
  "i < length code \<Longrightarrow> code ! i = of_char (CHR ''['') \<Longrightarrow>
   lex_loop code i inCall p cur urls = lex_loop code (i + 1) inArray p cur urls"
  by (subst lex_loop.simps) (auto simp: Let_def isWhitespace_def)

lemma lex_loop_callback:
  "i < length code \<Longrightarrow> \<not> isStringDelimiter (code ! i) \<Longrightarrow> \<not> isWhitespace (code ! i) \<Longrightarrow>
   code ! i \<noteq> of_char (CHR ''['') \<Longrightarrow>
   lex_loop code i inCall p cur urls = (urls, Inr True)"
  by (subst lex_loop.simps) (auto simp: Let_def isStringDelimiter_def)

lemma lex_loop_array_end:
  "i < length code \<Longrightarrow> code ! i = of_char (CHR '']'') \<Longrightarrow>
   lex_loop code i inArray p cur urls = (urls, Inr False)"
  by (subst lex_loop.simps) (auto simp: Let_def isWhitespace_def)

lemma lex_loop_comma:
  "i < length code \<Longrightarrow> code ! i = of_char (CHR '','') \<Longrightarrow>
   lex_loop code i inArray p cur urls = lex_loop code (i + 1) inArray p cur urls"
  by (subst lex_loop.simps) (auto simp: Let_def isWhitespace_def)

lemma lex_loop_array_error:
  "i < length code \<Longrightarrow> \<not> isStringDelimiter (code ! i) \<Longrightarrow> \<not> isWhitespace (code ! i) \<Longrightarrow>
   code ! i \<noteq> of_char (CHR '']'') \<Longrightarrow> code ! i \<noteq> of_char (CHR '','') \<Longrightarrow>
   lex_loop code i inArray p cur urls = (urls, Inl (AcceptSyntaxError i))"
  by (subst lex_loop.simps) (auto simp: Let_def isStringDelimiter_def)

lemma lex_loop_close_call:
  "i < length code \<Longrightarrow> \<not> outside_string s \<Longrightarrow> code ! i = delimiter s \<Longrightarrow>
   lex_loop code i s inCall cur urls = (addDep cur i urls, Inr False)"
  by (subst lex_loop.simps, cases s) (auto simp: Let_def outside_string_def)

lemma lex_loop_close_array:
  "i < length code \<Longrightarrow> \<not> outside_string s \<Longrightarrow> code ! i = delimiter s \<Longrightarrow> p \<noteq> inCall \<Longrightarrow>
   lex_loop code i s p cur urls = lex_loop code (i + 1) p p [] (addDep cur i urls)"
  by (subst lex_loop.simps, cases s) (auto simp: Let_def outside_string_def)

lemma lex_loop_interpolation:
  "i < length code \<Longrightarrow> interpolation_at code i \<Longrightarrow>
   lex_loop code i inTemplateString p cur urls = (urls, Inl (AcceptSyntaxError i))"
  by (subst lex_loop.simps) (auto simp: Let_def interpolation_at_def)

lemma lex_loop_char:
  "i < length code \<Longrightarrow> \<not> outside_string s \<Longrightarrow> code ! i \<noteq> delimiter s \<Longrightarrow>
   \<not> (s = inTemplateString \<and> interpolation_at code i) \<Longrightarrow>
   lex_loop code i s p cur urls = lex_loop code (i + 1) s p (cur @ [code ! i]) urls"
  by (subst lex_loop.simps, cases s) (auto simp: Let_def outside_string_def interpolation_at_def)

lemma delimiter_cases:
  assumes "isStringDelimiter c"
  shows "\<exists>s'. \<not> outside_string s' \<and> c = delimiter s'"
proof -
  from assms consider "c = delimiter inSingleQuoteString" | "c = delimiter inDoubleQuoteString"
    | "c = delimiter inTemplateString" by (auto simp: isStringDelimiter_def)
  then show ?thesis
  proof cases
    case 1 then show ?thesis by (intro exI[of _ inSingleQuoteString]) (simp add: outside_string_def)
  next
    case 2 then show ?thesis by (intro exI[of _ inDoubleQuoteString]) (simp add: outside_string_def)
  next
    case 3 then show ?thesis by (intro exI[of _ inTemplateString]) (simp add: outside_string_def)
  qed
qed

lemma lex_loop_positions:
  "lex_inv code i state prevState cur \<Longrightarrow>
   lex_loop code i state prevState cur urls = (urls', r) \<Longrightarrow>
   \<exists>new. urls' = urls @ new \<and> (\<forall>d\<in>set new. dep_span_ok code d)"
proof (induction "length code - i" arbitrary: i state prevState cur urls)
  case 0
  then have "lex_loop code i state prevState cur urls = (urls, Inr False)"
    by (intro lex_loop_end) simp
  with 0 show ?case by simp
next
  case (Suc n)
  then have lt: "i < length code" and n: "n = length code - (i + 1)" by simp_all
  note inv = Suc.prems(1) and res = Suc.prems(2)
  have stop: ?case if "lex_loop code i state prevState cur urls = (urls, r')" for r'
    using that res by simp
  have continue: ?case
    if "lex_loop code i state prevState cur urls = lex_loop code (i + 1) s' p' cur' urls"
      and "lex_inv code (i + 1) s' p' cur'" for s' p' cur'
    using Suc.hyps(1)[OF n that(2)] that(1) res by simp
  show ?case
  proof (cases "outside_string state")
    case True
    then have cur: "cur = []" using inv by (simp add: lex_inv_def)
    have out: "lex_inv code (i + 1) s' p' []" if "outside_string s'" for s' p'
      using that by (rule lex_inv_outside)
    consider (quote) s' where "\<not> outside_string s'" "code ! i = delimiter s'"
      | (space) "isWhitespace (code ! i)"
      | (other) "\<not> isStringDelimiter (code ! i)" "\<not> isWhitespace (code ! i)"
      using delimiter_cases[of "code ! i"] by blast
    then show ?thesis
    proof cases
      case quote
      show ?thesis
        using lex_loop_enter[OF lt True quote] lex_inv_enter[OF True lt quote(2,1)] cur
        by (intro continue) simp_all
    next
      case space
      show ?thesis
        using lex_loop_space[OF lt True space] out[OF True] cur by (intro continue) simp_all
    next
      case other
      from True consider "state = inCall" | "state = inArray" by (auto simp: outside_string_def)
      then show ?thesis
      proof cases
        case 1
        show ?thesis
        proof (cases "code ! i = of_char (CHR ''['')")
          case True
          show ?thesis
            using lex_loop_bracket[OF lt True] out[of inArray] 1 cur
            by (intro continue[of inArray prevState "[]"]) (simp_all add: outside_string_def)
        next
          case False
          show ?thesis using lex_loop_callback[OF lt other False] 1 by (intro stop) simp
        qed
      next
        case 2
        consider "code ! i = of_char (CHR '']'')" | "code ! i = of_char (CHR '','')"
          | "code ! i \<noteq> of_char (CHR '']'')" "code ! i \<noteq> of_char (CHR '','')" by blast
        then show ?thesis
        proof cases
          case 1
          show ?thesis using lex_loop_array_end[OF lt 1] 2 by (intro stop) simp
        next
          case 2
          show ?thesis
            using lex_loop_comma[OF lt 2] \<open>state = inArray\<close> out[of inArray] cur
            by (intro continue[of inArray prevState "[]"]) (simp_all add: outside_string_def)
        next
          case 3
          show ?thesis using lex_loop_array_error[OF lt other 3] 2 by (intro stop) simp
        qed
      qed
    qed
  next
    case False
    have pv: "outside_string prevState" using inv False by (simp add: lex_inv_def)
    show ?thesis
    proof (cases "code ! i = delimiter state")
      case True
      let ?d = "\<lparr>dep_url = cur, dep_start = int i - int (length cur) - 1, dep_end = int i + 1\<rparr>"
      have d: "dep_span_ok code ?d" using inv False lt True by (rule addDep_ok)
      have a: "addDep cur i urls = urls @ [?d]" by (simp add: addDep_def)
      show ?thesis
      proof (cases "prevState = inCall")
        case c: True
        have "urls' = urls @ [?d]"
          using lex_loop_close_call[OF lt False True, of cur urls] res c a by simp
        with d show ?thesis by auto
      next
        case c: False
        have "lex_loop code (i + 1) prevState prevState [] (urls @ [?d]) = (urls', r)"
          using lex_loop_close_array[OF lt False True c, of cur urls] res a by simp
        from Suc.hyps(1)[OF n lex_inv_outside[OF pv] this] obtain new where
          "urls' = (urls @ [?d]) @ new" "\<forall>x\<in>set new. dep_span_ok code x" by blast
        with d have "urls' = urls @ (?d # new) \<and> (\<forall>x\<in>set (?d # new). dep_span_ok code x)"
          by simp
        then show ?thesis by blast
      qed
    next
      case ne: False
      show ?thesis
      proof (cases "state = inTemplateString \<and> interpolation_at code i")
        case True
        then show ?thesis using lex_loop_interpolation[OF lt, of prevState cur urls]
          by (intro stop) simp
      next
        case nt: False
        show ?thesis
          using lex_loop_char[OF lt False ne nt] lex_inv_step[OF inv False lt]
          by (intro continue) simp_all
      qed
    qed
  qed
qed


fun has_interpolation :: "jsstring \<Rightarrow> bool" where
  "has_interpolation (a # b # rest) =
     ((a = of_char (CHR ''$'') \<and> b = of_char (CHR ''{'')) \<or> has_interpolation (b # rest))"
| "has_interpolation _ = False"

definition literal_body :: "LexerState \<Rightarrow> jsstring \<Rightarrow> bool" where
  "literal_body s body \<longleftrightarrow>
     \<not> outside_string s \<and> delimiter s \<notin> set body \<and>
     (s = inTemplateString \<longrightarrow> \<not> has_interpolation body)"

definition quoted :: "LexerState \<Rightarrow> jsstring \<Rightarrow> jsstring" where
  "quoted s body = delimiter s # body @ [delimiter s]"

definition isSeparator :: "jschar \<Rightarrow> bool" where
  "isSeparator c \<longleftrightarrow> isWhitespace c \<or> c = of_char (CHR '','')"

fun array_items :: "(jsstring \<times> LexerState \<times> jsstring) list \<Rightarrow> jsstring" where
  "array_items [] = []"
| "array_items ((sep, s, body) # rest) = sep @ quoted s body @ array_items rest"

definition array_form ::
  "jsstring \<Rightarrow> (jsstring \<times> LexerState \<times> jsstring) list \<Rightarrow> jsstring \<Rightarrow> jsstring" where
  "array_form ws items sep = ws @ [of_char (CHR ''['')] @ array_items items @ sep @ [of_char (CHR '']'')]"

lemma lex_skip_space:
  assumes "outside_string s" "\<forall>c\<in>set xs. isWhitespace c"
  shows "lex_loop (pre @ xs @ post) (length pre) s p cur urls
       = lex_loop (pre @ xs @ post) (length pre + length xs) s p cur urls"
  using assms(2)
proof (induction xs arbitrary: pre)
  case Nil
  show ?case by simp
next
  case (Cons c xs)
  have "lex_loop (pre @ (c # xs) @ post) (length pre) s p cur urls
      = lex_loop (pre @ (c # xs) @ post) (length pre + 1) s p cur urls"
    using Cons.prems assms(1) by (intro lex_loop_space) simp_all
  also have "\<dots> = lex_loop ((pre @ [c]) @ xs @ post) (length (pre @ [c])) s p cur urls" by simp
  also have "\<dots> = lex_loop ((pre @ [c]) @ xs @ post) (length (pre @ [c]) + length xs) s p cur urls"
    using Cons.prems by (intro Cons.IH) simp
  finally show ?case by simp
qed

lemma lex_skip_separators:
  assumes "\<forall>c\<in>set xs. isSeparator c"
  shows "lex_loop (pre @ xs @ post) (length pre) inArray p cur urls
       = lex_loop (pre @ xs @ post) (length pre + length xs) inArray p cur urls"
  using assms
proof (induction xs arbitrary: pre)
  case Nil
  show ?case by simp
next
  case (Cons c xs)
  have o: "outside_string inArray" by (simp add: outside_string_def)
  have "lex_loop (pre @ (c # xs) @ post) (length pre) inArray p cur urls
      = lex_loop (pre @ (c # xs) @ post) (length pre + 1) inArray p cur urls"
  proof (cases "isWhitespace c")
    case True
    then show ?thesis using o by (intro lex_loop_space) simp_all
  next
    case False
    with Cons.prems have "c = of_char (CHR '','')" by (simp add: isSeparator_def)
    then show ?thesis by (intro lex_loop_comma) simp_all
  qed
  also have "\<dots> = lex_loop ((pre @ [c]) @ xs @ post) (length (pre @ [c])) inArray p cur urls" by simp
  also have "\<dots> = lex_loop ((pre @ [c]) @ xs @ post) (length (pre @ [c]) + length xs) inArray p cur urls"
    using Cons.prems by (intro Cons.IH) simp
  finally show ?case by simp
qed

lemma lex_body:
  assumes "\<not> outside_string s" "delimiter s \<notin> set body"
    "s = inTemplateString \<longrightarrow> \<not> has_interpolation (body @ [delimiter s])"
  shows "lex_loop (pre @ body @ delimiter s # post) (length pre) s p cur urls
       = lex_loop (pre @ body @ delimiter s # post) (length pre + length body) s p (cur @ body) urls"
  using assms(2,3)
proof (induction body arbitrary: pre cur)
  case Nil
  show ?case by simp
next
  case (Cons c body)
  let ?code = "pre @ (c # body) @ delimiter s # post"
  have ni: "\<not> (s = inTemplateString \<and> interpolation_at ?code (length pre))"
  proof
    assume a: "s = inTemplateString \<and> interpolation_at ?code (length pre)"
    then have st: "s = inTemplateString" and ia: "interpolation_at ?code (length pre)"
      by blast+
    from ia have c: "c = of_char (CHR ''$'')"
      and m: "?code ! (length pre + 1) = of_char (CHR ''{'')"
      by (auto simp: interpolation_at_def)
    have "?code ! (length pre + 1) = (body @ delimiter s # post) ! 0"
      by (simp add: nth_append)
    with m have n: "(body @ delimiter s # post) ! 0 = of_char (CHR ''{'')" by simp
    show False
    proof (cases body)
      case Nil
      with n st show False by simp
    next
      case (Cons b bs)
      with n have "b = of_char (CHR ''{'')" by simp
      with c Cons Cons.prems(2) st show False by simp
    qed
  qed
  have "lex_loop ?code (length pre) s p cur urls
      = lex_loop ?code (length pre + 1) s p (cur @ [c]) urls"
    using lex_loop_char[of "length pre" ?code s p cur urls] Cons.prems assms(1) ni by simp
  also have "\<dots> = lex_loop ((pre @ [c]) @ body @ delimiter s # post) (length (pre @ [c])) s p (cur @ [c]) urls"
    by simp
  also have "\<dots> = lex_loop ((pre @ [c]) @ body @ delimiter s # post)
                      (length (pre @ [c]) + length body) s p ((cur @ [c]) @ body) urls"
  proof (intro Cons.IH)
    show "delimiter s \<notin> set body" using Cons.prems by simp
    show "s = inTemplateString \<longrightarrow> \<not> has_interpolation (body @ [delimiter s])"
      using Cons.prems by (cases body) auto
  qed
  finally show ?case by simp
qed

lemma has_interpolation_snoc:
  "c \<noteq> of_char (CHR ''{'') \<Longrightarrow> has_interpolation (body @ [c]) = has_interpolation body"
  by (induction body rule: has_interpolation.induct) auto


lemma lex_item:
  assumes sep: "\<forall>c\<in>set sep. isSeparator c" and lit: "literal_body s body"
  shows "lex_loop (pre @ (sep @ quoted s body) @ post) (length pre) inArray p [] urls
       = lex_loop (pre @ (sep @ quoted s body) @ post) (length pre + length (sep @ quoted s body))
           inArray inArray []
           (urls @ [\<lparr>dep_url = body, dep_start = int (length pre + length sep),
                     dep_end = int (length pre + length sep + length body + 2)\<rparr>])"
proof -
  let ?code = "pre @ (sep @ quoted s body) @ post"
  let ?i = "length pre + length sep"
  from lit have ns: "\<not> outside_string s" and nd: "delimiter s \<notin> set body"
    and ni: "s = inTemplateString \<longrightarrow> \<not> has_interpolation body"
    by (simp_all add: literal_body_def)
  have c1: "?code = pre @ sep @ (quoted s body @ post)" by simp
  have c2: "?code = (pre @ sep @ [delimiter s]) @ body @ delimiter s # post"
    by (simp add: quoted_def)
  have "lex_loop ?code (length pre) inArray p [] urls = lex_loop ?code ?i inArray p [] urls"
    unfolding c1 using sep by (rule lex_skip_separators)
  also have "\<dots> = lex_loop ?code (?i + 1) s inArray [] urls"
  proof (rule lex_loop_enter)
    show "?i < length ?code" by (simp add: quoted_def)
    show "outside_string inArray" by (simp add: outside_string_def)
    show "\<not> outside_string s" by (rule ns)
    have "?code ! ?i = ((pre @ sep) @ quoted s body @ post) ! (length (pre @ sep) + 0)" by simp
    also have "\<dots> = (quoted s body @ post) ! 0" by (rule nth_append_length_plus)
    finally show "?code ! ?i = delimiter s" by (simp add: quoted_def)
  qed
  also have "\<dots> = lex_loop ?code (?i + 1 + length body) s inArray ([] @ body) urls"
  proof -
    have "s = inTemplateString \<longrightarrow> \<not> has_interpolation (body @ [delimiter s])"
      using ni by (auto simp: has_interpolation_snoc)
    from lex_body[OF ns nd this, of "pre @ sep @ [delimiter s]" post inArray "[]" urls]
    show ?thesis unfolding c2 by simp
  qed
  also have "\<dots> = lex_loop ?code (?i + 1 + length body + 1) inArray inArray []
                      (addDep body (?i + 1 + length body) urls)"
  proof -
    have "?code ! (length (pre @ sep @ [delimiter s]) + length body) = delimiter s"
      unfolding c2 by (simp add: nth_append)
    then have e: "?code ! (?i + 1 + length body) = delimiter s" by simp
    have l: "?i + 1 + length body < length ?code" by (simp add: quoted_def)
    show ?thesis
      using lex_loop_close_array[OF l ns e, of inArray "[] @ body" urls] by simp
  qed
  finally show ?thesis by (simp add: addDep_def quoted_def add.commute add.left_commute)
qed

lemma lex_items:
  assumes "\<forall>(sep, s, body)\<in>set items. (\<forall>c\<in>set sep. isSeparator c) \<and> literal_body s body"
  shows "\<exists>new p'. lex_loop (pre @ array_items items @ post) (length pre) inArray p [] urls
                 = lex_loop (pre @ array_items items @ post) (length pre + length (array_items items))
                     inArray p' [] (urls @ new)
               \<and> map dep_url new = map (\<lambda>(sep, s, body). body) items"
  using assms
proof (induction items arbitrary: pre p urls)
  case Nil
  have "lex_loop (pre @ array_items [] @ post) (length pre) inArray p [] urls
      = lex_loop (pre @ array_items [] @ post) (length pre + length (array_items [])) inArray p []
          (urls @ []) \<and> map dep_url [] = map (\<lambda>(sep, s, body). body) []" by simp
  then show ?case by blast
next
  case (Cons item items)
  obtain sep s body where item: "item = (sep, s, body)" by (cases item)
  with Cons.prems have sep: "\<forall>c\<in>set sep. isSeparator c" and lit: "literal_body s body"
    and rest: "\<forall>(sep, s, body)\<in>set items. (\<forall>c\<in>set sep. isSeparator c) \<and> literal_body s body"
    by simp_all
  let ?it = "sep @ quoted s body"
  let ?d = "\<lparr>dep_url = body, dep_start = int (length pre + length sep),
             dep_end = int (length pre + length sep + length body + 2)\<rparr>"
  let ?code = "pre @ array_items (item # items) @ post"
  have c1: "?code = pre @ ?it @ (array_items items @ post)" by (simp add: item)
  have c2: "?code = (pre @ ?it) @ array_items items @ post" by (simp add: item)
  from Cons.IH[OF rest, of "pre @ ?it" inArray "urls @ [?d]"] obtain new p' where
    ih: "lex_loop ((pre @ ?it) @ array_items items @ post) (length (pre @ ?it)) inArray inArray []
           (urls @ [?d])
         = lex_loop ((pre @ ?it) @ array_items items @ post)
             (length (pre @ ?it) + length (array_items items)) inArray p' [] ((urls @ [?d]) @ new)"
    and m: "map dep_url new = map (\<lambda>(sep, s, body). body) items" by blast
  have "lex_loop ?code (length pre) inArray p [] urls
      = lex_loop ?code (length pre + length ?it) inArray inArray [] (urls @ [?d])"
    unfolding c1 using lex_item[OF sep lit, of pre "array_items items @ post" p urls] by simp
  also have "\<dots> = lex_loop ?code (length (pre @ ?it) + length (array_items items)) inArray p' []
                      ((urls @ [?d]) @ new)"
    unfolding c2 using ih by simp
  finally have "lex_loop ?code (length pre) inArray p [] urls
      = lex_loop ?code (length pre + length (array_items (item # items))) inArray p' []
          (urls @ (?d # new))"
    by (simp add: item add.assoc)
  moreover have "map dep_url (?d # new) = map (\<lambda>(sep, s, body). body) (item # items)"
    using m by (simp add: item)
  ultimately show ?case by blast
qed

lemma lex_array_form:
  assumes ws: "\<forall>c\<in>set ws. isWhitespace c"
    and items: "\<forall>(sep, s, body)\<in>set items. (\<forall>c\<in>set sep. isSeparator c) \<and> literal_body s body"
    and sep: "\<forall>c\<in>set sep. isSeparator c"
  shows "\<exists>new. lex_loop (pre @ array_form ws items sep @ rest) (length pre) inCall inCall [] urls
               = (urls @ new, Inr False)
             \<and> map dep_url new = map (\<lambda>(sep, s, body). body) items"
proof -
  let ?lb = "of_char (CHR ''['') :: jschar" and ?rb = "of_char (CHR '']'') :: jschar"
  let ?code = "pre @ array_form ws items sep @ rest"
  let ?tail = "array_items items @ sep @ ?rb # rest"
  have c1: "?code = pre @ ws @ (?lb # ?tail)" by (simp add: array_form_def)
  have c2: "?code = (pre @ ws @ [?lb]) @ array_items items @ (sep @ ?rb # rest)"
    by (simp add: array_form_def)
  have c3: "?code = (pre @ ws @ [?lb] @ array_items items) @ sep @ (?rb # rest)"
    by (simp add: array_form_def)
  let ?i1 = "length pre + length ws"
  let ?i2 = "length (pre @ ws @ [?lb])"
  let ?i3 = "length (pre @ ws @ [?lb] @ array_items items)"
  from lex_items[OF items, of "pre @ ws @ [?lb]" "sep @ ?rb # rest" inCall urls]
  obtain new p' where
    it: "lex_loop ?code ?i2 inArray inCall [] urls
       = lex_loop ?code (?i2 + length (array_items items)) inArray p' [] (urls @ new)"
    and m: "map dep_url new = map (\<lambda>(sep, s, body). body) items"
    unfolding c2 by blast
  have "lex_loop ?code (length pre) inCall inCall [] urls = lex_loop ?code ?i1 inCall inCall [] urls"
    unfolding c1 using ws by (intro lex_skip_space) (simp_all add: outside_string_def)
  also have "\<dots> = lex_loop ?code (?i1 + 1) inArray inCall [] urls"
  proof (rule lex_loop_bracket)
    show "?i1 < length ?code" by (simp add: array_form_def)
    have "?code ! ?i1 = ((pre @ ws) @ ?lb # ?tail) ! (length (pre @ ws) + 0)" unfolding c1 by simp
    also have "\<dots> = (?lb # ?tail) ! 0" by (rule nth_append_length_plus)
    finally show "?code ! ?i1 = ?lb" by simp
  qed
  also have "\<dots> = lex_loop ?code ?i3 inArray p' [] (urls @ new)"
    using it by (simp add: add.assoc)
  also have "\<dots> = lex_loop ?code (?i3 + length sep) inArray p' [] (urls @ new)"
    unfolding c3 using sep by (rule lex_skip_separators)
  also have "\<dots> = (urls @ new, Inr False)"
  proof (rule lex_loop_array_end)
    show "?i3 + length sep < length ?code" by (simp add: array_form_def)
    have "?code ! (?i3 + length sep)
        = ((pre @ ws @ [?lb] @ array_items items @ sep) @ ?rb # rest)
            ! (length (pre @ ws @ [?lb] @ array_items items @ sep) + 0)"
      unfolding c3 by (simp add: add.assoc)
    also have "\<dots> = (?rb # rest) ! 0" by (rule nth_append_length_plus)
    finally show "?code ! (?i3 + length sep) = ?rb" by simp
  qed
  finally show ?thesis using m by blast
qed

lemma lex_callback_form:
  assumes ws: "\<forall>x\<in>set ws. isWhitespace x"
    and c: "\<not> isWhitespace c" "\<not> isStringDelimiter c" "c \<noteq> of_char (CHR ''['')"
  shows "lex_loop (pre @ ws @ c # rest) (length pre) inCall inCall [] urls = (urls, Inr True)"
proof -
  let ?code = "pre @ ws @ c # rest"
  have "lex_loop ?code (length pre) inCall inCall [] urls
      = lex_loop ?code (length pre + length ws) inCall inCall [] urls"
    using ws by (intro lex_skip_space) (simp_all add: outside_string_def)
  also have "\<dots> = (urls, Inr True)"
  proof (rule lex_loop_callback)
    show "length pre + length ws < length ?code" by simp
    have "?code ! (length pre + length ws) = ((pre @ ws) @ c # rest) ! (length (pre @ ws) + 0)"
      by simp
    also have "\<dots> = (c # rest) ! 0" by (rule nth_append_length_plus)
    finally have "?code ! (length pre + length ws) = c" by simp
    with c show "\<not> isStringDelimiter (?code ! (length pre + length ws))"
      "\<not> isWhitespace (?code ! (length pre + length ws))"
      "?code ! (length pre + length ws) \<noteq> of_char (CHR ''['')" by simp_all
  qed
  finally show ?thesis .
qed

lemma lex_array_error_form:
  assumes ws: "\<forall>c\<in>set ws. isWhitespace c"
    and items: "\<forall>(sep, s, body)\<in>set items. (\<forall>c\<in>set sep. isSeparator c) \<and> literal_body s body"
    and sep: "\<forall>c\<in>set sep. isSeparator c"
    and c: "\<not> isSeparator c" "\<not> isStringDelimiter c" "c \<noteq> of_char (CHR '']'')"
  shows "\<exists>new. lex_loop (pre @ ws @ of_char (CHR ''['') # array_items items @ sep @ c # rest)
                 (length pre) inCall inCall [] urls
               = (urls @ new,
                  Inl (AcceptSyntaxError
                    (length pre + length ws + 1 + length (array_items items) + length sep)))
             \<and> map dep_url new = map (\<lambda>(sep, s, body). body) items"
proof -
  let ?lb = "of_char (CHR ''['') :: jschar"
  let ?code = "pre @ ws @ ?lb # array_items items @ sep @ c # rest"
  let ?tail = "array_items items @ sep @ c # rest"
  have c2: "?code = (pre @ ws @ [?lb]) @ array_items items @ (sep @ c # rest)" by simp
  have c3: "?code = (pre @ ws @ [?lb] @ array_items items) @ sep @ (c # rest)" by simp
  let ?i1 = "length pre + length ws"
  let ?i2 = "length (pre @ ws @ [?lb])"
  let ?i3 = "length (pre @ ws @ [?lb] @ array_items items)"
  from lex_items[OF items, of "pre @ ws @ [?lb]" "sep @ c # rest" inCall urls]
  obtain new p' where
    it: "lex_loop ?code ?i2 inArray inCall [] urls
       = lex_loop ?code (?i2 + length (array_items items)) inArray p' [] (urls @ new)"
    and m: "map dep_url new = map (\<lambda>(sep, s, body). body) items"
    unfolding c2 by blast
  have "lex_loop ?code (length pre) inCall inCall [] urls = lex_loop ?code ?i1 inCall inCall [] urls"
    using ws by (intro lex_skip_space) (simp_all add: outside_string_def)
  also have "\<dots> = lex_loop ?code (?i1 + 1) inArray inCall [] urls"
  proof (rule lex_loop_bracket)
    show "?i1 < length ?code" by simp
    have "?code ! ?i1 = ((pre @ ws) @ ?lb # ?tail) ! (length (pre @ ws) + 0)" by simp
    also have "\<dots> = (?lb # ?tail) ! 0" by (rule nth_append_length_plus)
    finally show "?code ! ?i1 = ?lb" by simp
  qed
  also have "\<dots> = lex_loop ?code ?i3 inArray p' [] (urls @ new)"
    using it by (simp add: add.assoc)
  also have "\<dots> = lex_loop ?code (?i3 + length sep) inArray p' [] (urls @ new)"
    unfolding c3 using sep by (rule lex_skip_separators)
  also have "\<dots> = (urls @ new, Inl (AcceptSyntaxError (?i3 + length sep)))"
  proof (rule lex_loop_array_error)
    show "?i3 + length sep < length ?code" by simp
    have "?code ! (?i3 + length sep)
        = ((pre @ ws @ [?lb] @ array_items items @ sep) @ c # rest)
            ! (length (pre @ ws @ [?lb] @ array_items items @ sep) + 0)"
      unfolding c3 by (simp add: add.assoc)
    also have "\<dots> = (c # rest) ! 0" by (rule nth_append_length_plus)
    finally have e: "?code ! (?i3 + length sep) = c" by simp
    from c e show "\<not> isStringDelimiter (?code ! (?i3 + length sep))"
      "\<not> isWhitespace (?code ! (?i3 + length sep))"
      "?code ! (?i3 + length sep) \<noteq> of_char (CHR '']'')"
      "?code ! (?i3 + length sep) \<noteq> of_char (CHR '','')"
      by (simp_all add: isSeparator_def)
  qed
  finally have "lex_loop ?code (length pre) inCall inCall [] urls
      = (urls @ new, Inl (AcceptSyntaxError
           (length pre + length ws + 1 + length (array_items items) + length sep)))"
    by (simp add: add.assoc)
  with m show ?thesis by blast
qed


text \<open>
  Claim C10. Every dep that \<open>lexAcceptedHmrDeps\<close> records (also on a run that ends in
  an error) spans one string literal of the source: \<open>start\<close> is the index of the
  opening quote character, \<open>end\<close> is one past the index of the closing quote, which is
  the same character, and the source between them is the recorded \<open>url\<close>, so that
  \<open>end - start\<close> is the length of \<open>url\<close> plus 2.
\<close>

theorem lexAcceptedHmrDeps_dep_positions:
  assumes "lexAcceptedHmrDeps code start urls = (urls', r)"
  shows "\<exists>new. urls' = urls @ new \<and>
           (\<forall>d\<in>set new.
              0 \<le> dep_start d \<and> dep_end d \<le> int (length code) \<and>
              isStringDelimiter (code ! nat (dep_start d)) \<and>
              code ! nat (dep_end d - 1) = code ! nat (dep_start d) \<and>
              substring code (dep_start d + 1) (dep_end d - 1) = dep_url d \<and>
              dep_end d - dep_start d = int (length (dep_url d)) + 2)"
proof -
  have "lex_inv code start inCall inCall []"
    by (rule lex_inv_outside) (simp add: outside_string_def)
  from lex_loop_positions[OF this] assms
  obtain new where "urls' = urls @ new" "\<forall>d\<in>set new. dep_span_ok code d"
    unfolding lexAcceptedHmrDeps_def by blast
  then show ?thesis unfolding dep_span_ok_def by blast
qed

theorem lexAcceptedHmrDeps_dep_positions_witness:
  "lexAcceptedHmrDeps (js ''['/a']'') 0 []
     = ([\<lparr>dep_url = js ''/a'', dep_start = 1, dep_end = 5\<rparr>], Inr False) \<and>
   (\<exists>new. [\<lparr>dep_url = js ''/a'', dep_start = 1, dep_end = 5\<rparr>] = [] @ new \<and>
      (\<forall>d\<in>set new.
         0 \<le> dep_start d \<and> dep_end d \<le> int (length (js ''['/a']'')) \<and>
         isStringDelimiter (js ''['/a']'' ! nat (dep_start d)) \<and>
         js ''['/a']'' ! nat (dep_end d - 1) = js ''['/a']'' ! nat (dep_start d) \<and>
         substring (js ''['/a']'') (dep_start d + 1) (dep_end d - 1) = dep_url d \<and>
         dep_end d - dep_start d = int (length (dep_url d)) + 2))"
proof -
  have run: "lexAcceptedHmrDeps (js ''['/a']'') 0 []
      = ([\<lparr>dep_url = js ''/a'', dep_start = 1, dep_end = 5\<rparr>], Inr False)"
    by (simp add: lexAcceptedHmrDeps_def js_def lex_loop.simps addDep_def isWhitespace_def)
  from lexAcceptedHmrDeps_dep_positions[OF run] run show ?thesis by blast
qed

text \<open>
  Claim C5 as stated fails: the lexer reads no escape sequences and no comments, so
  not every syntactically valid array of string literals is read back. The first
  source below is the array of the one single-quoted literal with the characters
  \<open>a\<close>, an escaped single quote and \<open>b\<close> (code unit 92 is the backslash of the escape).
  The string ends for the lexer at the escaped quote: it records \<open>a\<close> with the
  backslash and then throws at the \<open>b\<close>, index 5. In \<open>[/*c*/'a']\<close> it throws at the
  \<open>/\<close>, index 1.
\<close>

theorem lexAcceptedHmrDeps_round_trip_counterexample:
  "lexAcceptedHmrDeps (js ''['a'' @ [92] @ js '''b']'') 0 []
     = ([\<lparr>dep_url = js ''a'' @ [92], dep_start = 1, dep_end = 5\<rparr>], Inl (AcceptSyntaxError 5)) \<and>
   lexAcceptedHmrDeps (js ''[/*c*/'a']'') 0 [] = ([], Inl (AcceptSyntaxError 1))"
  by (simp add: lexAcceptedHmrDeps_def js_def lex_loop.simps addDep_def isWhitespace_def)

text \<open>
  Claim C5, amended. Lexer round trip. An array form is optional white space, \<open>[\<close>,
  string literals each preceded by white space and commas, more white space and
  commas, and \<open>]\<close>; a literal is a body between two equal string delimiters that holds
  neither its delimiter (so no escaped quote) nor, in a template literal, an
  interpolation \<open>${\<close>. On a source with such a form at the start index the lexer
  returns \<open>false\<close> and adds exactly the bodies, in source order, to \<open>urls\<close>. On a
  callback-only form, where the first character that is not white space is neither a
  string delimiter nor \<open>[\<close>, it returns \<open>true\<close> and leaves \<open>urls\<close> as it was. Any other
  character between the literals of an array (the start of a comment, what follows an
  escaped quote, an identifier) makes the lexer throw at the index of that character,
  with the literals before it recorded.
\<close>

theorem lexAcceptedHmrDeps_round_trip:
  "((\<forall>c\<in>set ws. isWhitespace c) \<and>
    (\<forall>(sep, s, body)\<in>set items. (\<forall>c\<in>set sep. isSeparator c) \<and> literal_body s body) \<and>
    (\<forall>c\<in>set sep. isSeparator c) \<longrightarrow>
    (\<exists>new. lexAcceptedHmrDeps (pre @ array_form ws items sep @ rest) (length pre) urls
              = (urls @ new, Inr False) \<and>
           map dep_url new = map (\<lambda>(sep, s, body). body) items)) \<and>
   ((\<forall>c\<in>set ws'. isWhitespace c) \<and>
    \<not> isWhitespace c \<and> \<not> isStringDelimiter c \<and> c \<noteq> of_char (CHR ''['') \<longrightarrow>
    lexAcceptedHmrDeps (pre' @ ws' @ c # rest') (length pre') urls' = (urls', Inr True)) \<and>
   ((\<forall>c\<in>set ws. isWhitespace c) \<and>
    (\<forall>(sep, s, body)\<in>set items. (\<forall>c\<in>set sep. isSeparator c) \<and> literal_body s body) \<and>
    (\<forall>c\<in>set sep. isSeparator c) \<and>
    \<not> isSeparator x \<and> \<not> isStringDelimiter x \<and> x \<noteq> of_char (CHR '']'') \<longrightarrow>
    (\<exists>new. lexAcceptedHmrDeps
              (pre @ ws @ of_char (CHR ''['') # array_items items @ sep @ x # rest) (length pre) urls
              = (urls @ new,
                 Inl (AcceptSyntaxError
                   (length pre + length ws + 1 + length (array_items items) + length sep))) \<and>
           map dep_url new = map (\<lambda>(sep, s, body). body) items))"
  unfolding lexAcceptedHmrDeps_def
  using lex_array_form[of ws items sep pre rest urls] lex_callback_form[of ws' c pre' rest' urls']
    lex_array_error_form[of ws items sep x pre rest urls]
  by blast

theorem lexAcceptedHmrDeps_round_trip_witness:
  "isWhitespace 32 \<and>
   literal_body inSingleQuoteString (js ''/a'') \<and> literal_body inTemplateString (js ''/b$'') \<and>
   isSeparator 44 \<and> \<not> isStringDelimiter 41 \<and>
   (\<exists>new. lexAcceptedHmrDeps (js ''accept( ['/a', '' @ [96] @ js ''/b$'' @ [96] @ js '',], cb)'') 7 []
            = (new, Inr False) \<and>
          map dep_url new = [js ''/a'', js ''/b$'']) \<and>
   lexAcceptedHmrDeps (js ''accept( )'') 7 [] = ([], Inr True) \<and>
   (\<exists>new. lexAcceptedHmrDeps (js ''accept( ['/a', '' @ [96] @ js ''/b$'' @ [96] @ js '', x], cb)'') 7 []
            = (new, Inl (AcceptSyntaxError 22)) \<and>
          map dep_url new = [js ''/a'', js ''/b$''])"
proof -
  let ?items = "[([], inSingleQuoteString, js ''/a''), ([44, 32], inTemplateString, js ''/b$'')]
                  :: (jsstring \<times> LexerState \<times> jsstring) list"
  have h1: "\<forall>c\<in>set [32]. isWhitespace c" by (simp add: isWhitespace_def)
  have h2: "\<forall>(sep, s, body)\<in>set ?items. (\<forall>c\<in>set sep. isSeparator c) \<and> literal_body s body"
    by (simp add: isSeparator_def isWhitespace_def literal_body_def outside_string_def js_def)
  have h3: "\<forall>c\<in>set [44]. isSeparator c" by (simp add: isSeparator_def)
  have h3': "\<forall>c\<in>set [44, 32]. isSeparator c" by (simp add: isSeparator_def isWhitespace_def)
  have h4: "\<not> isWhitespace 41 \<and> \<not> isStringDelimiter 41 \<and> (41::nat) \<noteq> of_char (CHR ''['')"
    by (simp add: isWhitespace_def isStringDelimiter_def)
  have h5: "\<not> isSeparator 120 \<and> \<not> isStringDelimiter 120 \<and> (120::nat) \<noteq> of_char (CHR '']'')"
    by (simp add: isSeparator_def isWhitespace_def isStringDelimiter_def)
  have e1: "js ''accept('' @ array_form [32] ?items [44] @ js '', cb)''
      = js ''accept( ['/a', '' @ [96] @ js ''/b$'' @ [96] @ js '',], cb)''"
    by (simp add: js_def array_form_def quoted_def)
  have e2: "js ''accept('' @ [32] @ 41 # [] = js ''accept( )''" by (simp add: js_def)
  have e3: "js ''accept('' @ [32] @ of_char (CHR ''['') # array_items ?items @ [44, 32] @ 120 # js ''], cb)''
      = js ''accept( ['/a', '' @ [96] @ js ''/b$'' @ [96] @ js '', x], cb)''"
    by (simp add: js_def quoted_def)
  have l: "length (js ''accept('') = 7" by (simp add: js_def)
  note t = lexAcceptedHmrDeps_round_trip[where ws = "[32]" and items = ?items and sep = "[44]"
      and pre = "js ''accept(''" and rest = "js '', cb)''" and urls = "[]" and ws' = "[32]"
      and c = 41 and pre' = "js ''accept(''" and rest' = "[]" and urls' = "[]" and x = 120]
  note t3 = lexAcceptedHmrDeps_round_trip[where ws = "[32]" and items = ?items and sep = "[44, 32]"
      and pre = "js ''accept(''" and rest = "js ''], cb)''" and urls = "[]" and x = 120,
      THEN conjunct2, THEN conjunct2]
  from t[THEN conjunct1] h1 h2 h3
  have a: "\<exists>new. lexAcceptedHmrDeps (js ''accept('' @ array_form [32] ?items [44] @ js '', cb)'')
                 (length (js ''accept('')) [] = ([] @ new, Inr False) \<and>
               map dep_url new = map (\<lambda>(sep, s, body). body) ?items"
    by blast
  from t[THEN conjunct2, THEN conjunct1] h1 h4
  have b: "lexAcceptedHmrDeps (js ''accept('' @ [32] @ 41 # []) (length (js ''accept('')) []
          = ([], Inr True)"
    by blast
  from t3 h1 h2 h3' h5
  have c: "\<exists>new. lexAcceptedHmrDeps
              (js ''accept('' @ [32] @ of_char (CHR ''['') # array_items ?items @ [44, 32] @ 120 # js ''], cb)'')
              (length (js ''accept('')) []
              = ([] @ new,
                 Inl (AcceptSyntaxError
                   (length (js ''accept('') + length [32::nat] + 1 + length (array_items ?items)
                      + length [44::nat, 32]))) \<and>
           map dep_url new = map (\<lambda>(sep, s, body). body) ?items"
    by blast
  from a b c have "(\<exists>new. lexAcceptedHmrDeps (js ''accept( ['/a', '' @ [96] @ js ''/b$'' @ [96] @ js '',], cb)'') 7 []
                 = (new, Inr False) \<and> map dep_url new = [js ''/a'', js ''/b$'']) \<and>
        lexAcceptedHmrDeps (js ''accept( )'') 7 [] = ([], Inr True) \<and>
        (\<exists>new. lexAcceptedHmrDeps (js ''accept( ['/a', '' @ [96] @ js ''/b$'' @ [96] @ js '', x], cb)'') 7 []
            = (new, Inl (AcceptSyntaxError 22)) \<and>
          map dep_url new = [js ''/a'', js ''/b$''])"
    unfolding e1 e2 e3 l by (simp add: quoted_def js_def)
  moreover have "isWhitespace 32 \<and> literal_body inSingleQuoteString (js ''/a'') \<and>
      literal_body inTemplateString (js ''/b$'') \<and> isSeparator 44 \<and> \<not> isStringDelimiter 41"
    by (simp add: isSeparator_def isWhitespace_def literal_body_def outside_string_def js_def
        isStringDelimiter_def)
  ultimately show ?thesis by blast
qed


section \<open>The module graph (\<open>ModuleNode\<close>, \<open>ModuleGraph\<close>, server/moduleGraph.ts)\<close>

text \<open>
  \<open>ModuleNode\<close> objects are mutable and shared: the sets \<open>importers\<close>,
  \<open>importedModules\<close> and \<open>acceptedHmrDeps\<close> hold references to other nodes, and the
  graph may have cycles. The objects therefore live in a store, the list of all nodes
  allocated so far; a reference is an index into it, and \<open>new ModuleNode\<close> appends.
  A reference past the end of the store, which no run of the program produces, reads
  as a node with empty fields and a write through it is lost.

  Values the graph only stores and hands back (\<open>info\<close>, \<open>meta\<close>, \<open>ssrModule\<close>) are
  represented by strings; of a source map the model keeps the two fields the
  transform pipeline reads.
\<close>

type_synonym ref = nat

datatype ModuleType = JS | CSS

record SourceMap =
  mappings :: string
  sourcesContent :: "string list option"

text \<open>A source map travels as an object or as its JSON text (\<open>SourceDescription['map']\<close>).\<close>

datatype MapValue = MapObject SourceMap | MapText string

type_synonym ModuleInfo = string
type_synonym Meta = string
type_synonym SsrModule = string

record TransformResult =
  code :: string
  smap :: "MapValue option"
  etag :: "string option"
  deps :: "string list option"
  dynamicDeps :: "string list option"

record ModuleNode =
  url :: string
  id' :: "string option"
  file' :: "string option"
  type :: ModuleType
  info :: "ModuleInfo option"
  meta :: "Meta option"
  importers :: "ref list"
  importedModules :: "ref list"
  acceptedHmrDeps :: "ref list"
  isSelfAccepting :: bool
  transformResult :: "TransformResult option"
  ssrTransformResult :: "TransformResult option"
  ssrModule :: "SsrModule option"
  lastHMRTimestamp :: nat

definition blank_node :: ModuleNode where
  "blank_node = \<lparr>url = [], id' = None, file' = None, type = JS, info = None, meta = None,
     importers = [], importedModules = [], acceptedHmrDeps = [], isSelfAccepting = False,
     transformResult = None, ssrTransformResult = None, ssrModule = None, lastHMRTimestamp = 0\<rparr>"

type_synonym heap = "ModuleNode list"

definition node_at :: "heap \<Rightarrow> ref \<Rightarrow> ModuleNode" where
  "node_at h r = (if r < length h then h ! r else blank_node)"

definition update_node :: "ref \<Rightarrow> (ModuleNode \<Rightarrow> ModuleNode) \<Rightarrow> heap \<Rightarrow> heap" where
  "update_node r f h = h[r := f (node_at h r)]"


text \<open>A \<open>Set\<close> keeps its elements in insertion order; \<open>add\<close> of an element it has changes nothing.\<close>

definition set_add :: "'a \<Rightarrow> 'a list \<Rightarrow> 'a list" where
  "set_add x xs = (if x \<in> set xs then xs else xs @ [x])"

definition set_delete :: "'a \<Rightarrow> 'a list \<Rightarrow> 'a list" where
  "set_delete x xs = removeAll x xs"

text \<open>
  The functions the graph imports from modules outside these sources (\<open>../utils\<close>,
  \<open>../plugins/css\<close>, \<open>../constants\<close>, \<open>path\<close>, \<open>url\<close>) and the \<open>resolveId\<close> function
  given to the constructor are parameters of the model. Resolution is taken to return
  normally; \<open>pathname\<close> is the string the source asserts it to be (\<open>pathname!\<close>).
\<close>

record PartialResolvedId =
  resolved_id :: string
  resolved_meta :: "Meta option"

record UrlParts =
  pathname :: string
  search :: "string option"
  hash :: "string option"

record GraphEnv =
  resolveId :: "string \<Rightarrow> bool \<Rightarrow> PartialResolvedId option"
  removeImportQuery :: "string \<Rightarrow> string"
  removeTimestampQuery :: "string \<Rightarrow> string"
  cleanUrl :: "string \<Rightarrow> string"
  normalizePath :: "string \<Rightarrow> string"
  extname :: "string \<Rightarrow> string"
  parseUrl :: "string \<Rightarrow> UrlParts"
  isDirectCSSRequest :: "string \<Rightarrow> bool"
  isCSSRequest :: "string \<Rightarrow> bool"
  FS_PREFIX :: string

text \<open>
  A \<open>Map\<close> is an association list in insertion order; \<open>get\<close> is \<open>map_of\<close> and \<open>set\<close>
  is \<open>AList.update\<close>, which keeps the place of a key that is already there.
\<close>

record ModuleGraph =
  nodes :: heap
  urlToModuleMap :: "(string \<times> ref) list"
  idToModuleMap :: "(string \<times> ref) list"
  fileToModulesMap :: "(string \<times> ref list) list"
  safeModulesPath :: "string list"

definition new_ModuleGraph :: ModuleGraph where
  "new_ModuleGraph = \<lparr>nodes = [], urlToModuleMap = [], idToModuleMap = [], fileToModulesMap = [],
     safeModulesPath = []\<rparr>"

definition new_ModuleNode :: "GraphEnv \<Rightarrow> string \<Rightarrow> ModuleNode" where
  "new_ModuleNode env u = \<lparr>url = u, id' = None, file' = None,
     type = (if isDirectCSSRequest env u then CSS else JS), info = None, meta = None,
     importers = [], importedModules = [], acceptedHmrDeps = [], isSelfAccepting = False,
     transformResult = None, ssrTransformResult = None, ssrModule = None, lastHMRTimestamp = 0\<rparr>"

definition endsWith :: "string \<Rightarrow> string \<Rightarrow> bool" where
  "endsWith s x \<longleftrightarrow> length x \<le> length s \<and> drop (length s - length x) s = x"

definition orEmpty :: "string option \<Rightarrow> string" where
  "orEmpty v = (case v of Some s \<Rightarrow> s | None \<Rightarrow> [])"

text \<open>
  \<open>resolveUrl\<close>: strip the timestamp and import queries, resolve, and append the
  extension of the resolved id to the path of the url when the path lacks it.
  \<open>resolved?.id || url\<close> falls back to the url also for an empty id.
\<close>

definition resolveUrl :: "GraphEnv \<Rightarrow> string \<Rightarrow> bool \<Rightarrow> string \<times> string \<times> Meta option" where
  "resolveUrl env u ssr =
     (let u1 = removeImportQuery env (removeTimestampQuery env u);
          resolved = resolveId env u1 ssr;
          resolvedId = (case resolved of
                          Some r \<Rightarrow> if resolved_id r \<noteq> [] then resolved_id r else u1
                        | None \<Rightarrow> u1);
          ext = extname env (cleanUrl env resolvedId);
          parts = parseUrl env u1;
          u2 = (if ext \<noteq> [] \<and> \<not> endsWith (pathname parts) ext
                then pathname parts @ ext @ orEmpty (search parts) @ orEmpty (hash parts)
                else u1)
      in (u2, resolvedId, case resolved of Some r \<Rightarrow> resolved_meta r | None \<Rightarrow> None))"

definition getModuleByUrl :: "GraphEnv \<Rightarrow> ModuleGraph \<Rightarrow> string \<Rightarrow> bool \<Rightarrow> ref option" where
  "getModuleByUrl env g rawUrl ssr = map_of (urlToModuleMap g) (fst (resolveUrl env rawUrl ssr))"

definition getModuleById :: "GraphEnv \<Rightarrow> ModuleGraph \<Rightarrow> string \<Rightarrow> ref option" where
  "getModuleById env g i = map_of (idToModuleMap g) (removeTimestampQuery env i)"

definition getModulesByFile :: "ModuleGraph \<Rightarrow> string \<Rightarrow> ref list option" where
  "getModulesByFile g f = map_of (fileToModulesMap g) f"

text \<open>
  \<open>ensureEntryFromUrl\<close> returns the node and the graph as the call leaves it. The set
  stored under a file is updated in place in the source; here the entry of the map is
  replaced by the set with the node added.
\<close>

definition ensureEntryFromUrl :: "GraphEnv \<Rightarrow> string \<Rightarrow> bool \<Rightarrow> ModuleGraph \<Rightarrow> ref \<times> ModuleGraph" where
  "ensureEntryFromUrl env rawUrl ssr g =
     (case resolveUrl env rawUrl ssr of (u, resolvedId, mt) \<Rightarrow>
        (case map_of (urlToModuleMap g) u of
           Some m \<Rightarrow> (m, g)
         | None \<Rightarrow>
             (let m = length (nodes g);
                  f = cleanUrl env resolvedId;
                  node = (new_ModuleNode env u)\<lparr>meta := mt, id' := Some resolvedId, file' := Some f\<rparr>;
                  fileMappedModules = (case map_of (fileToModulesMap g) f of
                                         Some ms \<Rightarrow> ms | None \<Rightarrow> [])
              in (m, g\<lparr>nodes := nodes g @ [node],
                        urlToModuleMap := AList.update u m (urlToModuleMap g),
                        idToModuleMap := AList.update resolvedId m (idToModuleMap g),
                        fileToModulesMap :=
                          AList.update f (set_add m fileMappedModules) (fileToModulesMap g)\<rparr>))))"

text \<open>
  \<open>createFileOnlyEntry\<close>: the empty set is entered under the file before the search,
  as in the source; the search returns the first node of the set with the url or the
  id of the file.
\<close>

definition createFileOnlyEntry :: "GraphEnv \<Rightarrow> string \<Rightarrow> ModuleGraph \<Rightarrow> ref \<times> ModuleGraph" where
  "createFileOnlyEntry env file0 g =
     (let f = normalizePath env file0;
          fileMappedModules = (case map_of (fileToModulesMap g) f of Some ms \<Rightarrow> ms | None \<Rightarrow> []);
          g1 = (case map_of (fileToModulesMap g) f of
                  Some ms \<Rightarrow> g
                | None \<Rightarrow> g\<lparr>fileToModulesMap := AList.update f [] (fileToModulesMap g)\<rparr>);
          u = FS_PREFIX env @ f
      in case find (\<lambda>m. url (node_at (nodes g1) m) = u \<or> id' (node_at (nodes g1) m) = Some f)
                fileMappedModules of
           Some m \<Rightarrow> (m, g1)
         | None \<Rightarrow>
             (let m = length (nodes g1);
                  node = (new_ModuleNode env u)\<lparr>file' := Some f\<rparr>
              in (m, g1\<lparr>nodes := nodes g1 @ [node],
                         fileToModulesMap :=
                           AList.update f (set_add m fileMappedModules) (fileToModulesMap g1)\<rparr>)))"

text \<open>
  \<open>updateModuleInfo\<close>. The arguments \<open>importedModules\<close> and \<open>acceptedModules\<close> are sets
  of urls and nodes, given as lists in iteration order. The three loops of the source
  are \<open>update_imports\<close> (over \<open>importedModules\<close>, writing into the new set that
  \<open>mod.importedModules\<close> already points to), \<open>drop_prev_imports\<close> (the \<open>forEach\<close> over
  \<open>prevImports\<close>, with \<open>noLongerImported\<close> created on first use) and \<open>update_accepted\<close>
  (over \<open>acceptedModules\<close>).
\<close>

datatype UrlOrNode = Url string | Node ref

definition entry_of :: "GraphEnv \<Rightarrow> bool \<Rightarrow> UrlOrNode \<Rightarrow> ModuleGraph \<Rightarrow> ref \<times> ModuleGraph" where
  "entry_of env ssr x g = (case x of Url u \<Rightarrow> ensureEntryFromUrl env u ssr g | Node d \<Rightarrow> (d, g))"

fun update_imports :: "GraphEnv \<Rightarrow> ref \<Rightarrow> bool \<Rightarrow> UrlOrNode list \<Rightarrow> ModuleGraph \<Rightarrow> ModuleGraph" where
  "update_imports env m ssr [] g = g"
| "update_imports env m ssr (imported # rest) g =
     (case entry_of env ssr imported g of (dep, g1) \<Rightarrow>
        update_imports env m ssr rest
          (g1\<lparr>nodes :=
                update_node m (\<lambda>n. n\<lparr>importedModules := set_add dep (importedModules n)\<rparr>)
                  (update_node dep (\<lambda>n. n\<lparr>importers := set_add m (importers n)\<rparr>) (nodes g1))\<rparr>))"

fun drop_prev_imports :: "ref \<Rightarrow> ref list \<Rightarrow> heap \<times> ref list option \<Rightarrow> heap \<times> ref list option" where
  "drop_prev_imports m [] st = st"
| "drop_prev_imports m (dep # rest) (h, noLongerImported) =
     (if dep \<notin> set (importedModules (node_at h m)) then
        (let h1 = update_node dep (\<lambda>n. n\<lparr>importers := set_delete m (importers n)\<rparr>) h
         in if importers (node_at h1 dep) = [] then
              drop_prev_imports m rest
                (h1, Some (set_add dep (case noLongerImported of Some s \<Rightarrow> s | None \<Rightarrow> [])))
            else drop_prev_imports m rest (h1, noLongerImported))
      else drop_prev_imports m rest (h, noLongerImported))"

fun update_accepted :: "GraphEnv \<Rightarrow> ref \<Rightarrow> bool \<Rightarrow> UrlOrNode list \<Rightarrow> ModuleGraph \<Rightarrow> ModuleGraph" where
  "update_accepted env m ssr [] g = g"
| "update_accepted env m ssr (accepted # rest) g =
     (case entry_of env ssr accepted g of (dep, g1) \<Rightarrow>
        update_accepted env m ssr rest
          (g1\<lparr>nodes :=
                update_node m (\<lambda>n. n\<lparr>acceptedHmrDeps := set_add dep (acceptedHmrDeps n)\<rparr>) (nodes g1)\<rparr>))"

definition updateModuleInfo ::
  "GraphEnv \<Rightarrow> ref \<Rightarrow> UrlOrNode list \<Rightarrow> UrlOrNode list \<Rightarrow> bool \<Rightarrow> bool \<Rightarrow> ModuleGraph
     \<Rightarrow> ref list option \<times> ModuleGraph" where
  "updateModuleInfo env m imported accepted selfAccepting ssr g =
     (let g1 = g\<lparr>nodes := update_node m (\<lambda>n. n\<lparr>isSelfAccepting := selfAccepting\<rparr>) (nodes g)\<rparr>;
          prevImports = importedModules (node_at (nodes g1) m);
          g2 = g1\<lparr>nodes := update_node m (\<lambda>n. n\<lparr>importedModules := []\<rparr>) (nodes g1)\<rparr>;
          g3 = update_imports env m ssr imported g2
      in case drop_prev_imports m prevImports (nodes g3, None) of (h4, noLongerImported) \<Rightarrow>
           (noLongerImported,
            update_accepted env m ssr accepted
              (g3\<lparr>nodes := update_node m (\<lambda>n. n\<lparr>acceptedHmrDeps := []\<rparr>) h4\<rparr>)))"


subsection \<open>Invalidation of the server-side rendered modules\<close>

text \<open>
  The number of allocated nodes that a walk has not yet seen: the walks over the
  importers terminate because every call that goes on marks one more node.
\<close>

definition unseen :: "heap \<times> ref set \<Rightarrow> nat" where
  "unseen st = card ({..<length (fst st)} - snd st)"

lemma length_update_node [simp]: "length (update_node r f h) = length h"
  by (simp add: update_node_def)

lemma unseen_mono:
  "length (fst st') = length (fst st) \<Longrightarrow> snd st \<subseteq> snd st' \<Longrightarrow> unseen st' \<le> unseen st"
  unfolding unseen_def by (auto intro!: card_mono)

text \<open>
  \<open>invalidateSSRModule\<close> with its \<open>forEach\<close> over the importers; the store and the
  \<open>seen\<close> set are threaded through the calls.
\<close>

function invalidateSSRModule :: "ref \<Rightarrow> heap \<times> ref set \<Rightarrow> heap \<times> ref set"
  and invalidateSSR_importers :: "ref list \<Rightarrow> heap \<times> ref set \<Rightarrow> heap \<times> ref set"
where
  "invalidateSSRModule m (h, seen) =
     (if m \<in> seen then (h, seen)
      else
        (let seen' = insert m seen;
             h' = update_node m (\<lambda>n. n\<lparr>ssrModule := None\<rparr>) h
         in invalidateSSR_importers (importers (node_at h' m)) (h', seen')))"
| "invalidateSSR_importers [] st = st"
| "invalidateSSR_importers (importer # rest) st =
     invalidateSSR_importers rest (invalidateSSRModule importer st)"
  by pat_completeness auto

lemma invalidateSSRModule_grows:
  "invalidateSSRModule_invalidateSSR_importers_dom (Inl (m, st)) \<Longrightarrow>
     length (fst (invalidateSSRModule m st)) = length (fst st)
     \<and> snd st \<subseteq> snd (invalidateSSRModule m st)"
  "invalidateSSRModule_invalidateSSR_importers_dom (Inr (is, st)) \<Longrightarrow>
     length (fst (invalidateSSR_importers is st)) = length (fst st)
     \<and> snd st \<subseteq> snd (invalidateSSR_importers is st)"
proof (induct m st and "is" st rule: invalidateSSRModule_invalidateSSR_importers.pinduct)
  case (1 m h seen)
  then show ?case by (auto simp: invalidateSSRModule.psimps Let_def)
next
  case (2 st)
  then show ?case by (simp add: invalidateSSR_importers.psimps)
next
  case (3 importer rest st)
  then show ?case by (auto simp: invalidateSSR_importers.psimps)
qed

termination invalidateSSRModule
proof (relation "measures [
    (\<lambda>x. case x of Inl (_, st) \<Rightarrow> unseen st | Inr (_, st) \<Rightarrow> unseen st),
    (\<lambda>x. case x of Inl _ \<Rightarrow> 1 | Inr (is, _) \<Rightarrow> (if is = [] then 0 else Suc (length is)))]",
    goal_cases)
  case 1
  show ?case by simp
next
  case (2 m h seen x xa)
  have "unseen (update_node m f h, insert m seen) < unseen (h, seen)" if "m < length h" for f
  proof -
    have "{..<length h} - insert m seen \<subset> {..<length h} - seen" using that 2(1) by auto
    then have "card ({..<length h} - insert m seen) < card ({..<length h} - seen)"
      by (intro psubset_card_mono) simp_all
    then show ?thesis by (simp add: unseen_def)
  qed
  moreover have "unseen (update_node m f h, insert m seen) \<le> unseen (h, seen)" for f
    by (rule unseen_mono) auto
  moreover have "importers (node_at (update_node m f h) m) = []" if "\<not> m < length h" for f
    using that by (simp add: node_at_def blank_node_def)
  ultimately show ?case using 2
    by (cases "m < length h") (auto simp: le_less)
next
  case (3 importer rest st)
  then show ?case by auto
next
  case (4 importer rest st)
  then show ?case
    using invalidateSSRModule_grows(1)[of importer st]
      unseen_mono[of "invalidateSSRModule importer st" st]
    by (auto simp: le_less)
qed

declare invalidateSSRModule.simps [simp del] invalidateSSR_importers.simps [simp del]

text \<open>
  \<open>invalidateModule\<close>, \<open>onFileChange\<close> and \<open>invalidateAll\<close>; the last two share one
  \<open>seen\<close> set over all modules they invalidate, in the iteration order of the set of
  the file and of \<open>idToModuleMap\<close>.
\<close>

definition invalidateModule :: "ref \<Rightarrow> heap \<times> ref set \<Rightarrow> heap \<times> ref set" where
  "invalidateModule m st =
     invalidateSSRModule m
       (update_node m (\<lambda>n. n\<lparr>info := None, transformResult := None, ssrTransformResult := None\<rparr>)
          (fst st), snd st)"

definition onFileChange :: "ModuleGraph \<Rightarrow> string \<Rightarrow> ModuleGraph" where
  "onFileChange g f =
     (case getModulesByFile g f of
        Some mods \<Rightarrow> g\<lparr>nodes := fst (fold invalidateModule mods (nodes g, {}))\<rparr>
      | None \<Rightarrow> g)"

definition invalidateAll :: "ModuleGraph \<Rightarrow> ModuleGraph" where
  "invalidateAll g = g\<lparr>nodes := fst (fold invalidateModule (map snd (idToModuleMap g)) (nodes g, {}))\<rparr>"


section \<open>Hot module replacement (server/hmr.ts)\<close>

subsection \<open>The boundary walk \<open>propagateUpdate\<close>\<close>

text \<open>
  \<open>boundaries\<close> is a \<open>Set\<close> of fresh object literals, hence a list in insertion
  order. The two \<open>for\<close> loops over \<open>node.importers\<close> are the functions
  \<open>propagate_css_importers\<close> (the loop of the self-accepting branch, which drops the
  result of the recursive call) and \<open>propagate_importers\<close>. The walk reads the store
  and does not change it.
\<close>

record Boundary =
  boundary :: ref
  acceptedVia :: ref

definition unvisited :: "heap \<Rightarrow> ref list \<Rightarrow> nat" where
  "unvisited h chain = card ({..<length h} - set chain)"

function propagateUpdate ::
    "GraphEnv \<Rightarrow> heap \<Rightarrow> ref \<Rightarrow> Boundary list \<Rightarrow> ref list \<Rightarrow> bool \<times> Boundary list"
  and propagate_css_importers ::
    "GraphEnv \<Rightarrow> heap \<Rightarrow> ref list \<Rightarrow> Boundary list \<Rightarrow> ref list \<Rightarrow> Boundary list"
  and propagate_importers ::
    "GraphEnv \<Rightarrow> heap \<Rightarrow> ref \<Rightarrow> ref list \<Rightarrow> Boundary list \<Rightarrow> ref list \<Rightarrow> bool \<times> Boundary list"
where
  "propagateUpdate env h node boundaries currentChain =
     (if isSelfAccepting (node_at h node) then
        (False, propagate_css_importers env h (importers (node_at h node))
                  (boundaries @ [\<lparr>boundary = node, acceptedVia = node\<rparr>]) currentChain)
      else if importers (node_at h node) = [] then (True, boundaries)
      else if \<not> isCSSRequest env (url (node_at h node))
              \<and> (\<forall>i\<in>set (importers (node_at h node)). isCSSRequest env (url (node_at h i)))
      then (True, boundaries)
      else propagate_importers env h node (importers (node_at h node)) boundaries currentChain)"
| "propagate_css_importers env h [] boundaries currentChain = boundaries"
| "propagate_css_importers env h (importer # rest) boundaries currentChain =
     (if isCSSRequest env (url (node_at h importer)) \<and> importer \<notin> set currentChain then
        propagate_css_importers env h rest
          (snd (propagateUpdate env h importer boundaries (currentChain @ [importer])))
          currentChain
      else propagate_css_importers env h rest boundaries currentChain)"
| "propagate_importers env h node [] boundaries currentChain = (False, boundaries)"
| "propagate_importers env h node (importer # rest) boundaries currentChain =
     (if node \<in> set (acceptedHmrDeps (node_at h importer)) then
        propagate_importers env h node rest
          (boundaries @ [\<lparr>boundary = importer, acceptedVia = node\<rparr>]) currentChain
      else if importer \<in> set currentChain then (True, boundaries)
      else (case propagateUpdate env h importer boundaries (currentChain @ [importer]) of
              (True, boundaries') \<Rightarrow> (True, boundaries')
            | (False, boundaries') \<Rightarrow>
                propagate_importers env h node rest boundaries' currentChain))"
  by pat_completeness auto



lemma unvisited_append_less:
  "i < length h \<Longrightarrow> i \<notin> set chain \<Longrightarrow> unvisited h (chain @ [i]) < unvisited h chain"
  unfolding unvisited_def
  by (rule psubset_card_mono) auto

lemma unvisited_append_le: "unvisited h (chain @ [i]) \<le> unvisited h chain"
  unfolding unvisited_def
  by (rule card_mono) auto

lemma importers_valid: "importers (node_at h node) \<noteq> [] \<Longrightarrow> node < length h"
  by (auto simp: node_at_def blank_node_def split: if_splits)

lemma selfAccepting_valid: "isSelfAccepting (node_at h node) \<Longrightarrow> node < length h"
  by (auto simp: node_at_def blank_node_def split: if_splits)

termination propagateUpdate
proof (relation "measures [
    (\<lambda>x. case x of
       Inl (_, h, node, _, chain) \<Rightarrow> 2 * unvisited h chain + (if node < length h then 1 else 0)
     | Inr (Inl (_, h, _, _, chain)) \<Rightarrow> 2 * unvisited h chain + 1
     | Inr (Inr (_, h, _, _, _, chain)) \<Rightarrow> 2 * unvisited h chain + 1),
    (\<lambda>x. case x of
       Inl (_, h, node, _, _) \<Rightarrow> Suc (length (importers (node_at h node)))
     | Inr (Inl (_, _, is, _, _)) \<Rightarrow> length is
     | Inr (Inr (_, _, _, is, _, _)) \<Rightarrow> length is)]", goal_cases)
  case 1
  show ?case by simp
next
  case (2 env h node boundaries currentChain)
  then show ?case by (auto dest: selfAccepting_valid)
next
  case (3 env h node boundaries currentChain)
  then show ?case by (auto dest: importers_valid)
next
  case (4 env h importer rest boundaries currentChain)
  then show ?case
    using unvisited_append_less[of importer h currentChain]
      unvisited_append_le[of h currentChain importer]
    by auto
next
  case 5 then show ?case by auto
next
  case 6 then show ?case by auto
next 
  case 7 then show ?case by auto
next 
  case (8 env h node importer rest boundaries currentChain)
  then show ?case 
    using unvisited_append_less[of importer h currentChain]
      unvisited_append_le[of h currentChain importer]
    by auto
next
  case 9 then show ?case by auto
qed

declare propagateUpdate.simps [simp del] propagate_css_importers.simps [simp del]
  propagate_importers.simps [simp del]



subsection \<open>The invalidation walk \<open>invalidate\<close>\<close>

text \<open>
  \<open>invalidate\<close> marks the module as seen, stamps it and clears its cached results,
  then goes on to every importer that does not have the module in its
  \<open>acceptedHmrDeps\<close>.
\<close>

function invalidate :: "ref \<Rightarrow> nat \<Rightarrow> heap \<times> ref set \<Rightarrow> heap \<times> ref set"
  and invalidate_importers :: "ref \<Rightarrow> ref list \<Rightarrow> nat \<Rightarrow> heap \<times> ref set \<Rightarrow> heap \<times> ref set"
where
  "invalidate m timestamp (h, seen) =
     (if m \<in> seen then (h, seen)
      else
        (let seen' = insert m seen;
             h' = update_node m (\<lambda>n. n\<lparr>lastHMRTimestamp := timestamp, transformResult := None,
                                           ssrModule := None, ssrTransformResult := None\<rparr>) h
         in invalidate_importers m (importers (node_at h' m)) timestamp (h', seen')))"
| "invalidate_importers m [] timestamp st = st"
| "invalidate_importers m (importer # rest) timestamp (h, seen) =
     invalidate_importers m rest timestamp
       (if m \<notin> set (acceptedHmrDeps (node_at h importer))
        then invalidate importer timestamp (h, seen) else (h, seen))"
  by pat_completeness auto

lemma invalidate_grows:
  "invalidate_invalidate_importers_dom (Inl (m, ts, st)) \<Longrightarrow>
     length (fst (invalidate m ts st)) = length (fst st) \<and> snd st \<subseteq> snd (invalidate m ts st)"
  "invalidate_invalidate_importers_dom (Inr (m, is, ts, st)) \<Longrightarrow>
     length (fst (invalidate_importers m is ts st)) = length (fst st)
     \<and> snd st \<subseteq> snd (invalidate_importers m is ts st)"
proof (induct m ts st and m "is" ts st rule: invalidate_invalidate_importers.pinduct)
  case (1 m timestamp h seen)
  then show ?case by (auto simp: invalidate.psimps Let_def)
next
  case (2 m timestamp st)
  then show ?case by (simp add: invalidate_importers.psimps)
next
  case (3 m importer rest timestamp h seen)
  then show ?case by (auto simp: invalidate_importers.psimps split: if_splits)
qed

termination invalidate
proof (relation "measures [
    (\<lambda>x. case x of Inl (_, _, st) \<Rightarrow> unseen st | Inr (_, _, _, st) \<Rightarrow> unseen st),
    (\<lambda>x. case x of Inl _ \<Rightarrow> 1 | Inr (_, is, _, _) \<Rightarrow> (if is = [] then 0 else Suc (length is)))]",
    goal_cases)
  case 1
  show ?case by simp
next
  case (2 m timestamp h seen x xa)
  have "unseen (update_node m f h, insert m seen) < unseen (h, seen)" if "m < length h" for f
  proof -
    have "{..<length h} - insert m seen \<subset> {..<length h} - seen" using that 2(1) by auto
    then have "card ({..<length h} - insert m seen) < card ({..<length h} - seen)"
      by (intro psubset_card_mono) simp_all
    then show ?thesis by (simp add: unseen_def)
  qed
  moreover have "unseen (update_node m f h, insert m seen) \<le> unseen (h, seen)" for f
    by (rule unseen_mono) auto
  moreover have "importers (node_at (update_node m f h) m) = []" if "\<not> m < length h" for f
    using that by (simp add: node_at_def blank_node_def)
  ultimately show ?case using 2 
    by (cases "m < length h") (auto simp: le_less)
next
  case (3 m importer rest timestamp h seen)
  then show ?case by auto
next
  case (4 m importer rest timestamp h seen)
  then show ?case 
    using invalidate_grows(1)[of importer timestamp "(h, seen)"] 
      unseen_mono[of "invalidate importer timestamp (h, seen)" "(h, seen)"]
    by (auto simp: le_less)
qed

declare invalidate.simps [simp del] invalidate_importers.simps [simp del]



subsection \<open>\<open>updateModules\<close>\<close>

text \<open>
  The payload handed to \<open>ws.send\<close> is the result, next to the store as the
  invalidation walks leave it. Logging is left out.
\<close>

datatype UpdateType = js_update | css_update

record Update =
  updateType :: UpdateType
  timestamp :: nat
  path :: string
  acceptedPath :: string

datatype HMRPayload = FullReloadPayload "string option" | UpdatePayload "Update list"
  | PrunePayload "string list"

definition to_update :: "heap \<Rightarrow> nat \<Rightarrow> Boundary \<Rightarrow> Update" where
  "to_update h ts b =
     \<lparr>updateType = (case type (node_at h (boundary b)) of JS \<Rightarrow> js_update | CSS \<Rightarrow> css_update),
      timestamp = ts,
      path = url (node_at h (boundary b)),
      acceptedPath = url (node_at h (acceptedVia b))\<rparr>"

text \<open>
  The \<open>for\<close> loop of \<open>updateModules\<close> over the store, the set \<open>invalidatedModules\<close>,
  the flag \<open>needFullReload\<close> and the list \<open>updates\<close>. Every module is invalidated;
  boundaries are looked for only while no full reload is needed.
\<close>

fun updateModules_loop ::
  "GraphEnv \<Rightarrow> nat \<Rightarrow> ref list \<Rightarrow> heap \<times> ref set \<times> bool \<times> Update list
     \<Rightarrow> heap \<times> ref set \<times> bool \<times> Update list" where
  "updateModules_loop env ts [] st = st"
| "updateModules_loop env ts (m # rest) (h, invalidatedModules, needFullReload, updates) =
     (case invalidate m ts (h, invalidatedModules) of (h1, invalidated1) \<Rightarrow>
        if needFullReload then
          updateModules_loop env ts rest (h1, invalidated1, needFullReload, updates)
        else
          (case propagateUpdate env h1 m [] [m] of (hasDeadEnd, boundaries) \<Rightarrow>
             if hasDeadEnd then updateModules_loop env ts rest (h1, invalidated1, True, updates)
             else updateModules_loop env ts rest
                    (h1, invalidated1, needFullReload, updates @ map (to_update h1 ts) boundaries)))"

definition updateModules :: "GraphEnv \<Rightarrow> string \<Rightarrow> ref list \<Rightarrow> nat \<Rightarrow> heap \<Rightarrow> heap \<times> HMRPayload" where
  "updateModules env f modules ts h =
     (case updateModules_loop env ts modules (h, {}, False, []) of
        (h', invalidatedModules, needFullReload, updates) \<Rightarrow>
          (h', if needFullReload then FullReloadPayload None else UpdatePayload updates))"



section \<open>Properties of the module graph\<close>

subsection \<open>A sample environment and graph\<close>

text \<open>
  The concrete instances below run in an environment where resolution finds nothing, so
  that a url is its own resolved id and file, and a url is a CSS request when it ends
  in \<open>.css\<close>.
\<close>

definition example_env :: GraphEnv where
  "example_env = \<lparr>resolveId = (\<lambda>u ssr. None), removeImportQuery = (\<lambda>u. u),
     removeTimestampQuery = (\<lambda>u. u), cleanUrl = (\<lambda>u. u), normalizePath = (\<lambda>u. u),
     extname = (\<lambda>u. []), parseUrl = (\<lambda>u. \<lparr>pathname = u, search = None, hash = None\<rparr>),
     isDirectCSSRequest = (\<lambda>u. endsWith u ''.css''), isCSSRequest = (\<lambda>u. endsWith u ''.css''),
     FS_PREFIX = ''/@fs/''\<rparr>"

definition example_node :: "string \<Rightarrow> ModuleNode" where
  "example_node u = (new_ModuleNode example_env u)\<lparr>id' := Some u, file' := Some u\<rparr>"

definition example_graph :: ModuleGraph where
  "example_graph =
     \<lparr>nodes = [(example_node ''/a'')\<lparr>importedModules := [1, 2]\<rparr>,
               (example_node ''/b'')\<lparr>importers := [0]\<rparr>,
               (example_node ''/c'')\<lparr>importers := [0]\<rparr>],
      urlToModuleMap = [(''/a'', 0), (''/b'', 1), (''/c'', 2)],
      idToModuleMap = [(''/a'', 0), (''/b'', 1), (''/c'', 2)],
      fileToModulesMap = [(''/a'', [0]), (''/b'', [1]), (''/c'', [2])],
      safeModulesPath = []\<rparr>"


lemma example_resolveUrl [simp]: "resolveUrl example_env u ssr = (u, u, None)"
  by (simp add: resolveUrl_def example_env_def Let_def)

lemma example_cleanUrl [simp]: "cleanUrl example_env u = u"
  by (simp add: example_env_def)

lemma example_normalizePath [simp]: "normalizePath example_env u = u"
  by (simp add: example_env_def)

lemma example_FS_PREFIX [simp]: "FS_PREFIX example_env = ''/@fs/''"
  by (simp add: example_env_def)


subsection \<open>Reading and writing the store\<close>

lemma node_at_update_node:
  "node_at (update_node r f h) r' = (if r' = r \<and> r < length h then f (node_at h r) else node_at h r')"
  by (auto simp: node_at_def update_node_def)

lemma node_at_append:
  "node_at (h @ [n]) r = (if r = length h then n else node_at h r)"
  by (auto simp: node_at_def nth_append)


text \<open>
  Claim C9. \<open>ensureEntryFromUrl\<close> is idempotent: a second call with the same url and
  the same resolution returns the node of the first call and leaves the graph, hence
  the three indices, as it was. A call for a url that has no node yet allocates one
  and enters it into \<open>urlToModuleMap\<close>, \<open>idToModuleMap\<close> and \<open>fileToModulesMap\<close>; a
  call for a url that has a node returns it and changes nothing.
\<close>

theorem ensureEntryFromUrl_idempotent:
  assumes "ensureEntryFromUrl env rawUrl ssr g = (m, g1)"
    and "resolveUrl env rawUrl ssr = (u, resolvedId, mt)"
  shows "ensureEntryFromUrl env rawUrl ssr g1 = (m, g1) \<and>
         (\<forall>m'. map_of (urlToModuleMap g) u = Some m' \<longrightarrow> m = m' \<and> g1 = g) \<and>
         (map_of (urlToModuleMap g) u = None \<longrightarrow>
            m = length (nodes g) \<and> length (nodes g1) = Suc (length (nodes g)) \<and>
            url (node_at (nodes g1) m) = u \<and>
            map_of (urlToModuleMap g1) u = Some m \<and>
            map_of (idToModuleMap g1) resolvedId = Some m \<and>
            (\<exists>ms. map_of (fileToModulesMap g1) (cleanUrl env resolvedId) = Some ms \<and> m \<in> set ms))"
proof (cases "map_of (urlToModuleMap g) u")
  case None
  with assms show ?thesis
    by (auto simp: ensureEntryFromUrl_def Let_def update_conv' set_add_def node_at_append
        new_ModuleNode_def)
next
  case (Some m')
  with assms show ?thesis by (auto simp: ensureEntryFromUrl_def)
qed

theorem ensureEntryFromUrl_idempotent_witness:
  "ensureEntryFromUrl example_env ''/a.js'' False new_ModuleGraph
     = (0, \<lparr>nodes = [(new_ModuleNode example_env ''/a.js'')\<lparr>id' := Some ''/a.js'', file' := Some ''/a.js''\<rparr>],
            urlToModuleMap = [(''/a.js'', 0)], idToModuleMap = [(''/a.js'', 0)],
            fileToModulesMap = [(''/a.js'', [0])], safeModulesPath = []\<rparr>) \<and>
   ensureEntryFromUrl example_env ''/a.js'' False
       (snd (ensureEntryFromUrl example_env ''/a.js'' False new_ModuleGraph))
     = ensureEntryFromUrl example_env ''/a.js'' False new_ModuleGraph"
proof -
  let ?g1 = "\<lparr>nodes = [(new_ModuleNode example_env ''/a.js'')\<lparr>id' := Some ''/a.js'', file' := Some ''/a.js''\<rparr>],
            urlToModuleMap = [(''/a.js'', 0)], idToModuleMap = [(''/a.js'', 0)],
            fileToModulesMap = [(''/a.js'', [0])], safeModulesPath = []\<rparr>"
  have r: "resolveUrl example_env ''/a.js'' False = (''/a.js'', ''/a.js'', None)"
    by (simp add: resolveUrl_def example_env_def Let_def)
  have c: "cleanUrl example_env ''/a.js'' = ''/a.js''" by (simp add: example_env_def)
  have e: "ensureEntryFromUrl example_env ''/a.js'' False new_ModuleGraph = (0, ?g1)"
    by (simp add: ensureEntryFromUrl_def r c new_ModuleGraph_def Let_def set_add_def new_ModuleNode_def)
  from ensureEntryFromUrl_idempotent[OF e r] e show ?thesis by simp
qed

subsection \<open>\<open>updateModuleInfo\<close>\<close>

text \<open>
  An element of the sets \<open>importedModules\<close> and \<open>acceptedModules\<close> is a url or a node;
  \<open>resolve_ref\<close> is the node it stands for in a graph: the entry of the resolved url,
  or the node itself.
\<close>

definition resolve_ref :: "GraphEnv \<Rightarrow> bool \<Rightarrow> ModuleGraph \<Rightarrow> UrlOrNode \<Rightarrow> ref option" where
  "resolve_ref env ssr g x =
     (case x of Url u \<Rightarrow> map_of (urlToModuleMap g) (fst (resolveUrl env u ssr)) | Node d \<Rightarrow> Some d)"

definition url_le :: "ModuleGraph \<Rightarrow> ModuleGraph \<Rightarrow> bool" where
  "url_le g g' \<longleftrightarrow>
     (\<forall>k r. map_of (urlToModuleMap g) k = Some r \<longrightarrow> map_of (urlToModuleMap g') k = Some r)"

text \<open>The fields of a node that only \<open>updateModuleInfo\<close> writes.\<close>

definition same_edges :: "heap \<Rightarrow> heap \<Rightarrow> bool" where
  "same_edges h h' \<longleftrightarrow>
     (\<forall>r. importedModules (node_at h' r) = importedModules (node_at h r) \<and>
          acceptedHmrDeps (node_at h' r) = acceptedHmrDeps (node_at h r) \<and>
          isSelfAccepting (node_at h' r) = isSelfAccepting (node_at h r))"

lemma url_le_refl [simp]: "url_le g g"
  by (simp add: url_le_def)

lemma url_le_trans: "url_le g g1 \<Longrightarrow> url_le g1 g2 \<Longrightarrow> url_le g g2"
  by (simp add: url_le_def)

lemma resolve_ref_mono: "url_le g g' \<Longrightarrow> resolve_ref env ssr g x = Some d \<Longrightarrow> resolve_ref env ssr g' x = Some d"
  by (cases x) (auto simp: resolve_ref_def url_le_def)

lemma same_edges_refl [simp]: "same_edges h h"
  by (simp add: same_edges_def)

lemma same_edges_trans: "same_edges h h1 \<Longrightarrow> same_edges h1 h2 \<Longrightarrow> same_edges h h2"
  by (simp add: same_edges_def)

lemma node_at_blank: "\<not> r < length h \<Longrightarrow> node_at h r = blank_node"
  by (simp add: node_at_def)

definition fresh_node :: "ModuleNode \<Rightarrow> bool" where
  "fresh_node n \<longleftrightarrow>
     importers n = [] \<and> importedModules n = [] \<and> acceptedHmrDeps n = [] \<and> \<not> isSelfAccepting n"

lemma fresh_new_ModuleNode [simp]: "fresh_node (new_ModuleNode env u)"
  by (simp add: fresh_node_def new_ModuleNode_def)

lemma fresh_blank [simp]: "fresh_node blank_node"
  by (simp add: fresh_node_def blank_node_def)

lemma node_at_append_fresh:
  assumes "fresh_node n"
  shows "importers (node_at (h @ [n]) r) = importers (node_at h r)"
    "importedModules (node_at (h @ [n]) r) = importedModules (node_at h r)"
    "acceptedHmrDeps (node_at (h @ [n]) r) = acceptedHmrDeps (node_at h r)"
    "isSelfAccepting (node_at (h @ [n]) r) = isSelfAccepting (node_at h r)"
  using assms by (auto simp: node_at_append node_at_blank fresh_node_def blank_node_def)

lemma ensureEntryFromUrl_nodes:
  assumes "ensureEntryFromUrl env u ssr g = (m, g1)"
  shows "nodes g1 = nodes g \<or> (\<exists>n. nodes g1 = nodes g @ [n] \<and> fresh_node n)"
proof -
  obtain k i mt where r: "resolveUrl env u ssr = (k, i, mt)" by (cases "resolveUrl env u ssr")
  show ?thesis
  proof (cases "map_of (urlToModuleMap g) k")
    case None
    with assms r show ?thesis
      by (auto simp: ensureEntryFromUrl_def Let_def fresh_node_def new_ModuleNode_def)
  next
    case (Some a)
    with assms r show ?thesis by (auto simp: ensureEntryFromUrl_def)
  qed
qed

lemma ensureEntryFromUrl_urls:
  assumes "ensureEntryFromUrl env u ssr g = (m, g1)"
  shows "url_le g g1" "map_of (urlToModuleMap g1) (fst (resolveUrl env u ssr)) = Some m"
proof -
  obtain k i mt where r: "resolveUrl env u ssr = (k, i, mt)" by (cases "resolveUrl env u ssr")
  show "url_le g g1" using assms r
    by (cases "map_of (urlToModuleMap g) k")
       (auto simp: ensureEntryFromUrl_def Let_def url_le_def update_conv')
  show "map_of (urlToModuleMap g1) (fst (resolveUrl env u ssr)) = Some m" using assms r
    by (cases "map_of (urlToModuleMap g) k")
       (auto simp: ensureEntryFromUrl_def Let_def update_conv')
qed

lemma entry_of_facts:
  assumes "entry_of env ssr x g = (dep, g1)"
  shows "url_le g g1" "length (nodes g) \<le> length (nodes g1)"
    "resolve_ref env ssr g1 x = Some dep"
    "\<And>r. r < length (nodes g) \<Longrightarrow> node_at (nodes g1) r = node_at (nodes g) r"
    "\<And>r. importers (node_at (nodes g1) r) = importers (node_at (nodes g) r)"
    "same_edges (nodes g) (nodes g1)"
proof -
  have n: "nodes g1 = nodes g \<or> (\<exists>n. nodes g1 = nodes g @ [n] \<and> fresh_node n)"
    using assms ensureEntryFromUrl_nodes by (cases x) (auto simp: entry_of_def)
  show "url_le g g1" using assms ensureEntryFromUrl_urls(1)
    by (cases x) (auto simp: entry_of_def)
  show "resolve_ref env ssr g1 x = Some dep" using assms ensureEntryFromUrl_urls(2)
    by (cases x) (auto simp: entry_of_def resolve_ref_def)
  show "length (nodes g) \<le> length (nodes g1)" using n by auto
  show "node_at (nodes g1) r = node_at (nodes g) r" if "r < length (nodes g)" for r
    using n that by (auto simp: node_at_append)
  show "importers (node_at (nodes g1) r) = importers (node_at (nodes g) r)" for r
    using n by (auto simp: node_at_append_fresh)
  show "same_edges (nodes g) (nodes g1)"
    using n by (auto simp: same_edges_def node_at_append_fresh)
qed

lemma set_set_add [simp]: "set (set_add x xs) = insert x (set xs)"
  by (auto simp: set_add_def)

lemma update_imports_facts:
  assumes "m < length (nodes g)"
  shows "url_le g (update_imports env m ssr imported g)
       \<and> length (nodes g) \<le> length (nodes (update_imports env m ssr imported g))
       \<and> Some ` set (importedModules (node_at (nodes (update_imports env m ssr imported g)) m))
           = Some ` set (importedModules (node_at (nodes g) m))
             \<union> resolve_ref env ssr (update_imports env m ssr imported g) ` set imported
       \<and> (\<forall>r. acceptedHmrDeps (node_at (nodes (update_imports env m ssr imported g)) r)
                = acceptedHmrDeps (node_at (nodes g) r)
              \<and> isSelfAccepting (node_at (nodes (update_imports env m ssr imported g)) r)
                = isSelfAccepting (node_at (nodes g) r)
              \<and> (r \<noteq> m \<longrightarrow> importedModules (node_at (nodes (update_imports env m ssr imported g)) r)
                = importedModules (node_at (nodes g) r)))"
  using assms
proof (induction imported arbitrary: g)
  case Nil
  show ?case by simp
next
  case (Cons x rest)
  obtain dep g1 where e: "entry_of env ssr x g = (dep, g1)" by (cases "entry_of env ssr x g")
  define g2 where "g2 = g1\<lparr>nodes :=
      update_node m (\<lambda>n. n\<lparr>importedModules := set_add dep (importedModules n)\<rparr>)
        (update_node dep (\<lambda>n. n\<lparr>importers := set_add m (importers n)\<rparr>) (nodes g1))\<rparr>"
  let ?g' = "update_imports env m ssr rest g2"
  have step: "update_imports env m ssr (x # rest) g = ?g'" by (simp add: e g2_def)
  note ef = entry_of_facts[OF e]
  have m1: "m < length (nodes g1)" using Cons.prems ef(2) by simp
  then have m2: "m < length (nodes g2)" by (simp add: g2_def)
  note ih = Cons.IH[OF m2]
  note ih1 = ih[THEN conjunct1] and ih2 = ih[THEN conjunct2, THEN conjunct1]
    and ih3 = ih[THEN conjunct2, THEN conjunct2, THEN conjunct1]
    and ih4 = ih[THEN conjunct2, THEN conjunct2, THEN conjunct2, THEN spec]
  have le12: "url_le g1 g2" by (simp add: url_le_def g2_def)
  have le2: "url_le g1 ?g'" using le12 ih1 by (rule url_le_trans)
  have le: "url_le g ?g'" using ef(1) le2 by (rule url_le_trans)
  have len: "length (nodes g) \<le> length (nodes ?g')" using ef(2) ih2 by (simp add: g2_def)
  have se: "same_edges (nodes g) (nodes g1)" by (rule ef(6))
  have imp2: "importedModules (node_at (nodes g2) m) = set_add dep (importedModules (node_at (nodes g) m))"
    using m1 se by (simp add: g2_def node_at_update_node same_edges_def)
  have rdep: "resolve_ref env ssr ?g' x = Some dep"
    using le2 ef(3) by (rule resolve_ref_mono)
  have "Some ` set (importedModules (node_at (nodes ?g') m))
      = Some ` set (importedModules (node_at (nodes g2) m)) \<union> resolve_ref env ssr ?g' ` set rest"
    by (rule ih3)
  also have "\<dots> = Some ` set (importedModules (node_at (nodes g) m))
       \<union> resolve_ref env ssr ?g' ` set (x # rest)"
    by (simp add: imp2 rdep Un_commute insert_commute)
  finally have imp: "Some ` set (importedModules (node_at (nodes ?g') m))
      = Some ` set (importedModules (node_at (nodes g) m)) \<union> resolve_ref env ssr ?g' ` set (x # rest)" .
  have other: "acceptedHmrDeps (node_at (nodes ?g') r) = acceptedHmrDeps (node_at (nodes g) r)
     \<and> isSelfAccepting (node_at (nodes ?g') r) = isSelfAccepting (node_at (nodes g) r)
     \<and> (r \<noteq> m \<longrightarrow> importedModules (node_at (nodes ?g') r) = importedModules (node_at (nodes g) r))" for r
  proof -
    have "acceptedHmrDeps (node_at (nodes g2) r) = acceptedHmrDeps (node_at (nodes g) r)
     \<and> isSelfAccepting (node_at (nodes g2) r) = isSelfAccepting (node_at (nodes g) r)
     \<and> (r \<noteq> m \<longrightarrow> importedModules (node_at (nodes g2) r) = importedModules (node_at (nodes g) r))"
      using se by (auto simp: g2_def node_at_update_node same_edges_def)
    with ih4[of r] show ?thesis by simp
  qed
  show ?case unfolding step
    by (intro conjI allI) (simp_all only: le len imp other, use other in blast)
qed

fun opt_set :: "'a list option \<Rightarrow> 'a set" where
  "opt_set None = {}"
| "opt_set (Some xs) = set xs"

lemma drop_prev_imports_facts:
  assumes "drop_prev_imports m prev (h, nl) = (h', nl')"
  shows "length h' = length h \<and> same_edges h h'
       \<and> (\<forall>d. importers (node_at h' d)
              = (if d \<in> set prev \<and> d \<notin> set (importedModules (node_at h m))
                 then removeAll m (importers (node_at h d)) else importers (node_at h d)))
       \<and> opt_set nl' = opt_set nl \<union> {d \<in> set prev. d \<notin> set (importedModules (node_at h m))
                                        \<and> removeAll m (importers (node_at h d)) = []}
       \<and> (nl' = None \<longleftrightarrow> nl = None \<and> {d \<in> set prev. d \<notin> set (importedModules (node_at h m))
                                        \<and> removeAll m (importers (node_at h d)) = []} = {})
       \<and> (nl \<noteq> Some [] \<longrightarrow> nl' \<noteq> Some [])"
  using assms
proof (induction prev arbitrary: h nl)
  case Nil
  then show ?case by simp
next
  case (Cons dep rest)
  let ?next = "set (importedModules (node_at h m))"
  show ?case
  proof (cases "dep \<in> ?next")
    case True
    with Cons.prems have "drop_prev_imports m rest (h, nl) = (h', nl')" by simp
    from Cons.IH[OF this] True show ?thesis by auto
  next
    case False
    define h1 where "h1 = update_node dep (\<lambda>n. n\<lparr>importers := set_delete m (importers n)\<rparr>) h"
    have i1: "importers (node_at h1 d) = (if d = dep then removeAll m (importers (node_at h d))
               else importers (node_at h d))" for d
      by (auto simp: h1_def node_at_update_node set_delete_def node_at_blank blank_node_def)
    have se: "same_edges h h1" by (auto simp: same_edges_def h1_def node_at_update_node)
    then have nx: "set (importedModules (node_at h1 m)) = ?next" by (simp add: same_edges_def)
    have l1: "length h1 = length h" by (simp add: h1_def)
    define nl1 where "nl1 = (if importers (node_at h1 dep) = []
        then Some (set_add dep (case nl of Some s \<Rightarrow> s | None \<Rightarrow> [])) else nl)"
    have r: "drop_prev_imports m rest (h1, nl1) = (h', nl')"
      using Cons.prems False by (simp add: h1_def nl1_def Let_def split: if_splits)
    note ih = Cons.IH[OF r]
    have n1: "opt_set nl1 = opt_set nl \<union> (if removeAll m (importers (node_at h dep)) = [] then {dep} else {})"
      by (cases nl) (auto simp: nl1_def i1)
    have n2: "nl1 = None \<longleftrightarrow> nl = None \<and> removeAll m (importers (node_at h dep)) \<noteq> []"
      by (auto simp: nl1_def i1)
    have n3: "nl \<noteq> Some [] \<longrightarrow> nl1 \<noteq> Some []"
      by (auto simp: nl1_def set_add_def)
    have rm: "removeAll m (importers (node_at h1 d)) = removeAll m (importers (node_at h d))" for d
      by (simp add: i1)
    show ?thesis
    proof (intro conjI allI)
      show "length h' = length h" using ih l1 by simp
      show "same_edges h h'" using ih se by (blast intro: same_edges_trans)
      show "importers (node_at h' d)
          = (if d \<in> set (dep # rest) \<and> d \<notin> ?next
             then removeAll m (importers (node_at h d)) else importers (node_at h d))" for d
        using ih False by (auto simp: nx i1)
      show "opt_set nl' = opt_set nl \<union> {d \<in> set (dep # rest). d \<notin> ?next
               \<and> removeAll m (importers (node_at h d)) = []}"
        using ih False by (auto simp: nx rm n1 split: if_splits)
      show "(nl' = None) = (nl = None \<and> {d \<in> set (dep # rest). d \<notin> ?next
               \<and> removeAll m (importers (node_at h d)) = []} = {})"
        using ih False by (auto simp: nx rm n2)
      show "nl \<noteq> Some [] \<longrightarrow> nl' \<noteq> Some []" using ih n3 by blast
    qed
  qed
qed

lemma update_accepted_facts:
  assumes "m < length (nodes g)"
  shows "url_le g (update_accepted env m ssr accepted g)
       \<and> length (nodes g) \<le> length (nodes (update_accepted env m ssr accepted g))
       \<and> Some ` set (acceptedHmrDeps (node_at (nodes (update_accepted env m ssr accepted g)) m))
           = Some ` set (acceptedHmrDeps (node_at (nodes g) m))
             \<union> resolve_ref env ssr (update_accepted env m ssr accepted g) ` set accepted
       \<and> (\<forall>r. importedModules (node_at (nodes (update_accepted env m ssr accepted g)) r)
                = importedModules (node_at (nodes g) r)
              \<and> isSelfAccepting (node_at (nodes (update_accepted env m ssr accepted g)) r)
                = isSelfAccepting (node_at (nodes g) r)
              \<and> importers (node_at (nodes (update_accepted env m ssr accepted g)) r)
                = importers (node_at (nodes g) r)
              \<and> (r \<noteq> m \<longrightarrow> acceptedHmrDeps (node_at (nodes (update_accepted env m ssr accepted g)) r)
                = acceptedHmrDeps (node_at (nodes g) r)))"
  using assms
proof (induction accepted arbitrary: g)
  case Nil
  show ?case by simp
next
  case (Cons x rest)
  obtain dep g1 where e: "entry_of env ssr x g = (dep, g1)" by (cases "entry_of env ssr x g")
  define g2 where "g2 = g1\<lparr>nodes :=
      update_node m (\<lambda>n. n\<lparr>acceptedHmrDeps := set_add dep (acceptedHmrDeps n)\<rparr>) (nodes g1)\<rparr>"
  let ?g' = "update_accepted env m ssr rest g2"
  have step: "update_accepted env m ssr (x # rest) g = ?g'" by (simp add: e g2_def)
  note ef = entry_of_facts[OF e]
  have m1: "m < length (nodes g1)" using Cons.prems ef(2) by simp
  then have m2: "m < length (nodes g2)" by (simp add: g2_def)
  note ih = Cons.IH[OF m2]
  note ih1 = ih[THEN conjunct1] and ih2 = ih[THEN conjunct2, THEN conjunct1]
    and ih3 = ih[THEN conjunct2, THEN conjunct2, THEN conjunct1]
    and ih4 = ih[THEN conjunct2, THEN conjunct2, THEN conjunct2, THEN spec]
  have le12: "url_le g1 g2" by (simp add: url_le_def g2_def)
  have le2: "url_le g1 ?g'" using le12 ih1 by (rule url_le_trans)
  have le: "url_le g ?g'" using ef(1) le2 by (rule url_le_trans)
  have len: "length (nodes g) \<le> length (nodes ?g')" using ef(2) ih2 by (simp add: g2_def)
  have se: "same_edges (nodes g) (nodes g1)" by (rule ef(6))
  have acc2: "acceptedHmrDeps (node_at (nodes g2) m) = set_add dep (acceptedHmrDeps (node_at (nodes g) m))"
    using m1 se by (simp add: g2_def node_at_update_node same_edges_def)
  have rdep: "resolve_ref env ssr ?g' x = Some dep"
    using le2 ef(3) by (rule resolve_ref_mono)
  have "Some ` set (acceptedHmrDeps (node_at (nodes ?g') m))
      = Some ` set (acceptedHmrDeps (node_at (nodes g2) m)) \<union> resolve_ref env ssr ?g' ` set rest"
    by (rule ih3)
  also have "\<dots> = Some ` set (acceptedHmrDeps (node_at (nodes g) m))
       \<union> resolve_ref env ssr ?g' ` set (x # rest)"
    by (simp add: acc2 rdep Un_commute insert_commute)
  finally have acc: "Some ` set (acceptedHmrDeps (node_at (nodes ?g') m))
      = Some ` set (acceptedHmrDeps (node_at (nodes g) m)) \<union> resolve_ref env ssr ?g' ` set (x # rest)" .
  have other: "importedModules (node_at (nodes ?g') r) = importedModules (node_at (nodes g) r)
     \<and> isSelfAccepting (node_at (nodes ?g') r) = isSelfAccepting (node_at (nodes g) r)
     \<and> importers (node_at (nodes ?g') r) = importers (node_at (nodes g) r)
     \<and> (r \<noteq> m \<longrightarrow> acceptedHmrDeps (node_at (nodes ?g') r) = acceptedHmrDeps (node_at (nodes g) r))" for r
  proof -
    have "importedModules (node_at (nodes g2) r) = importedModules (node_at (nodes g) r)
     \<and> isSelfAccepting (node_at (nodes g2) r) = isSelfAccepting (node_at (nodes g) r)
     \<and> importers (node_at (nodes g2) r) = importers (node_at (nodes g) r)
     \<and> (r \<noteq> m \<longrightarrow> acceptedHmrDeps (node_at (nodes g2) r) = acceptedHmrDeps (node_at (nodes g) r))"
      using se ef(5)[of r] by (auto simp: g2_def node_at_update_node same_edges_def)
    with ih show ?thesis by simp
  qed
  show ?case unfolding step
    by (intro conjI allI) (simp_all only: le len acc other, use other in blast)
qed

lemma updateModuleInfo_unfold:
  assumes "m < length (nodes g)"
    and "updateModuleInfo env m imported accepted selfAccepting ssr g = (noLongerImported, g')"
  shows "Some ` set (importedModules (node_at (nodes g') m)) = resolve_ref env ssr g' ` set imported"
    and "Some ` set (acceptedHmrDeps (node_at (nodes g') m)) = resolve_ref env ssr g' ` set accepted"
    and "isSelfAccepting (node_at (nodes g') m) = selfAccepting"
    and "\<And>d. importers (node_at (nodes g') d)
           = (if d \<in> set (importedModules (node_at (nodes g) m))
                 \<and> d \<notin> set (importedModules (node_at (nodes g') m))
              then removeAll m (importers (node_at (nodes g') d))
              else importers (node_at (nodes g') d))"
    and "opt_set noLongerImported
           = {d \<in> set (importedModules (node_at (nodes g) m)).
                d \<notin> set (importedModules (node_at (nodes g') m))
                \<and> importers (node_at (nodes g') d) = []}"
    and "noLongerImported \<noteq> Some []"
    and "\<And>r. r \<noteq> m \<Longrightarrow>
           importedModules (node_at (nodes g') r) = importedModules (node_at (nodes g) r) \<and>
           acceptedHmrDeps (node_at (nodes g') r) = acceptedHmrDeps (node_at (nodes g) r)"
proof -
  define g1 where "g1 = g\<lparr>nodes := update_node m (\<lambda>n. n\<lparr>isSelfAccepting := selfAccepting\<rparr>) (nodes g)\<rparr>"
  define prev where "prev = importedModules (node_at (nodes g1) m)"
  define g2 where "g2 = g1\<lparr>nodes := update_node m (\<lambda>n. n\<lparr>importedModules := []\<rparr>) (nodes g1)\<rparr>"
  define g3 where "g3 = update_imports env m ssr imported g2"
  obtain h4 nl where d: "drop_prev_imports m prev (nodes g3, None) = (h4, nl)"
    by (cases "drop_prev_imports m prev (nodes g3, None)")
  define g5 where "g5 = g3\<lparr>nodes := update_node m (\<lambda>n. n\<lparr>acceptedHmrDeps := []\<rparr>) h4\<rparr>"
  have res: "noLongerImported = nl" "g' = update_accepted env m ssr accepted g5"
    using assms(2) d
    by (simp_all add: updateModuleInfo_def Let_def g1_def[symmetric] prev_def[symmetric]
        g2_def[symmetric] g3_def[symmetric] g5_def[symmetric])
  have prev: "prev = importedModules (node_at (nodes g) m)"
    using assms(1) by (simp add: prev_def g1_def node_at_update_node)
  have m2: "m < length (nodes g2)" using assms(1) by (simp add: g2_def g1_def)
  note F = update_imports_facts[OF m2, of env ssr imported, folded g3_def]
  note F1 = F[THEN conjunct1] and F2 = F[THEN conjunct2, THEN conjunct1]
    and F3 = F[THEN conjunct2, THEN conjunct2, THEN conjunct1]
    and F4 = F[THEN conjunct2, THEN conjunct2, THEN conjunct2, THEN spec]
  have imp2: "importedModules (node_at (nodes g2) m) = []"
    using assms(1) by (simp add: g2_def g1_def node_at_update_node)
  have imp3: "Some ` set (importedModules (node_at (nodes g3) m)) = resolve_ref env ssr g3 ` set imported"
    using F3 by (simp add: imp2)
  have self3: "isSelfAccepting (node_at (nodes g3) m) = selfAccepting"
    using F4[of m] assms(1) by (simp add: g2_def g1_def node_at_update_node)
  have m3: "m < length (nodes g3)" using m2 F2 by simp
  note D = drop_prev_imports_facts[OF d]
  note D1 = D[THEN conjunct1] and D2 = D[THEN conjunct2, THEN conjunct1]
    and D3 = D[THEN conjunct2, THEN conjunct2, THEN conjunct1, THEN spec]
    and D4 = D[THEN conjunct2, THEN conjunct2, THEN conjunct2, THEN conjunct1]
    and D6 = D[THEN conjunct2, THEN conjunct2, THEN conjunct2, THEN conjunct2, THEN conjunct2]
  have m5: "m < length (nodes g5)" using m3 D1 by (simp add: g5_def)
  note A = update_accepted_facts[OF m5, of env ssr accepted, folded res(2)]
  note A1 = A[THEN conjunct1]
    and A3 = A[THEN conjunct2, THEN conjunct2, THEN conjunct1]
    and A4 = A[THEN conjunct2, THEN conjunct2, THEN conjunct2, THEN spec]
  have e5: "importedModules (node_at (nodes g5) r) = importedModules (node_at (nodes g3) r)"
    "isSelfAccepting (node_at (nodes g5) r) = isSelfAccepting (node_at (nodes g3) r)"
    "importers (node_at (nodes g5) r) = importers (node_at h4 r)" for r
    using D2 by (auto simp: g5_def node_at_update_node same_edges_def)
  have acc5: "acceptedHmrDeps (node_at (nodes g5) m) = []"
    using m3 D1 by (simp add: g5_def node_at_update_node)
  have le: "url_le g3 g'"
    using A1 by (simp add: url_le_def g5_def)
  have same_res: "resolve_ref env ssr g' x = resolve_ref env ssr g3 x" if "x \<in> set imported" for x
  proof -
    from that imp3 have "resolve_ref env ssr g3 x \<in> Some ` set (importedModules (node_at (nodes g3) m))"
      by blast
    then obtain dd where "resolve_ref env ssr g3 x = Some dd" by blast
    with le show ?thesis by (simp add: resolve_ref_mono)
  qed
  have impf: "importedModules (node_at (nodes g') m) = importedModules (node_at (nodes g3) m)"
    using A4[of m] e5(1)[of m] by simp
  show "Some ` set (importedModules (node_at (nodes g') m)) = resolve_ref env ssr g' ` set imported"
    using imp3 same_res by (simp add: impf)
  show "Some ` set (acceptedHmrDeps (node_at (nodes g') m)) = resolve_ref env ssr g' ` set accepted"
    using A3 by (simp add: acc5)
  show "isSelfAccepting (node_at (nodes g') m) = selfAccepting"
    using A4[of m] e5(2)[of m] self3 by simp
  have impd: "importers (node_at (nodes g') dd)
      = (if dd \<in> set prev \<and> dd \<notin> set (importedModules (node_at (nodes g3) m))
         then removeAll m (importers (node_at (nodes g3) dd)) else importers (node_at (nodes g3) dd))" for dd
    using A4[of dd] e5(3)[of dd] D3[of dd] by simp
  show "importers (node_at (nodes g') dd)
           = (if dd \<in> set (importedModules (node_at (nodes g) m))
                 \<and> dd \<notin> set (importedModules (node_at (nodes g') m))
              then removeAll m (importers (node_at (nodes g') dd))
              else importers (node_at (nodes g') dd))" for dd
    by (simp add: impd impf prev)
  show "opt_set noLongerImported
           = {dd \<in> set (importedModules (node_at (nodes g) m)).
                dd \<notin> set (importedModules (node_at (nodes g') m))
                \<and> importers (node_at (nodes g') dd) = []}"
    using D4 by (auto simp: res(1) impd impf prev)
  show "noLongerImported \<noteq> Some []" using D6 by (simp add: res(1))
  show "importedModules (node_at (nodes g') r) = importedModules (node_at (nodes g) r) \<and>
        acceptedHmrDeps (node_at (nodes g') r) = acceptedHmrDeps (node_at (nodes g) r)"
    if "r \<noteq> m" for r
  proof -
    have "importedModules (node_at (nodes g2) r) = importedModules (node_at (nodes g) r)"
      "acceptedHmrDeps (node_at (nodes g2) r) = acceptedHmrDeps (node_at (nodes g) r)"
      using that by (simp_all add: g2_def g1_def node_at_update_node)
    moreover have "acceptedHmrDeps (node_at (nodes g5) r) = acceptedHmrDeps (node_at (nodes g3) r)"
      using that D2 by (simp add: g5_def node_at_update_node same_edges_def)
    ultimately show ?thesis using that A4[of r] e5(1)[of r] F4[of r] by simp
  qed
qed

text \<open>
  Claim C3. After \<open>updateModuleInfo(m, I, A, s)\<close> on a node \<open>m\<close> of the graph:
  \<open>m.importedModules\<close> is the set of the nodes of \<open>I\<close>, \<open>m.acceptedHmrDeps\<close> the set
  of the nodes of \<open>A\<close>, \<open>m.isSelfAccepting\<close> is \<open>s\<close>; every module that \<open>m\<close> imported
  before and no longer imports has lost \<open>m\<close> from its importers; and the result is
  the set of those modules whose importers are now empty, \<open>undefined\<close> when there is
  none.
\<close>

theorem updateModuleInfo_effect:
  assumes "m < length (nodes g)"
    and "updateModuleInfo env m imported accepted selfAccepting ssr g = (noLongerImported, g')"
  shows "Some ` set (importedModules (node_at (nodes g') m)) = resolve_ref env ssr g' ` set imported \<and>
         Some ` set (acceptedHmrDeps (node_at (nodes g') m)) = resolve_ref env ssr g' ` set accepted \<and>
         isSelfAccepting (node_at (nodes g') m) = selfAccepting \<and>
         (\<forall>dep\<in>set (importedModules (node_at (nodes g) m)).
            dep \<notin> set (importedModules (node_at (nodes g') m)) \<longrightarrow>
            m \<notin> set (importers (node_at (nodes g') dep))) \<and>
         (case noLongerImported of
            None \<Rightarrow>
              {dep \<in> set (importedModules (node_at (nodes g) m)).
                 dep \<notin> set (importedModules (node_at (nodes g') m)) \<and>
                 importers (node_at (nodes g') dep) = []} = {}
          | Some gone \<Rightarrow>
              gone \<noteq> [] \<and>
              set gone = {dep \<in> set (importedModules (node_at (nodes g) m)).
                            dep \<notin> set (importedModules (node_at (nodes g') m)) \<and>
                            importers (node_at (nodes g') dep) = []})"
proof -
  note U = updateModuleInfo_unfold[OF assms]
  have removed: "m \<notin> set (importers (node_at (nodes g') dep))"
    if "dep \<in> set (importedModules (node_at (nodes g) m))"
      "dep \<notin> set (importedModules (node_at (nodes g') m))" for dep
  proof -
    from U(4)[of dep] that
    have "importers (node_at (nodes g') dep) = removeAll m (importers (node_at (nodes g') dep))"
      by simp
    then have "set (importers (node_at (nodes g') dep))
        = set (removeAll m (importers (node_at (nodes g') dep)))" by simp
    then show ?thesis by auto
  qed
  have ret: "(case noLongerImported of
            None \<Rightarrow>
              {dep \<in> set (importedModules (node_at (nodes g) m)).
                 dep \<notin> set (importedModules (node_at (nodes g') m)) \<and>
                 importers (node_at (nodes g') dep) = []} = {}
          | Some gone \<Rightarrow>
              gone \<noteq> [] \<and>
              set gone = {dep \<in> set (importedModules (node_at (nodes g) m)).
                            dep \<notin> set (importedModules (node_at (nodes g') m)) \<and>
                            importers (node_at (nodes g') dep) = []})"
  proof (cases noLongerImported)
    case None
    with U(5) show ?thesis by simp
  next
    case (Some gone)
    with U(5) U(6) show ?thesis by simp
  qed
  from U(1) U(2) U(3) removed ret show ?thesis by blast
qed

theorem updateModuleInfo_effect_witness:
  "0 < length (nodes example_graph) \<and>
   updateModuleInfo example_env 0 [Url ''/c''] [Url ''/c''] True False example_graph
     = (Some [1],
        example_graph\<lparr>nodes :=
          [(example_node ''/a'')\<lparr>importedModules := [2], acceptedHmrDeps := [2],
                                 isSelfAccepting := True\<rparr>,
           example_node ''/b'',
           (example_node ''/c'')\<lparr>importers := [0]\<rparr>]\<rparr>) \<and>
   importedModules (node_at (nodes example_graph) 0) = [1, 2] \<and>
   0 \<notin> set (importers (node_at
       [(example_node ''/a'')\<lparr>importedModules := [2], acceptedHmrDeps := [2],
                              isSelfAccepting := True\<rparr>,
        example_node ''/b'',
        (example_node ''/c'')\<lparr>importers := [0]\<rparr>] 1))"
proof -
  let ?g' = "example_graph\<lparr>nodes :=
          [(example_node ''/a'')\<lparr>importedModules := [2], acceptedHmrDeps := [2],
                                 isSelfAccepting := True\<rparr>,
           example_node ''/b'',
           (example_node ''/c'')\<lparr>importers := [0]\<rparr>]\<rparr>"
  have m: "0 < length (nodes example_graph)" by (simp add: example_graph_def)
  have u: "updateModuleInfo example_env 0 [Url ''/c''] [Url ''/c''] True False example_graph
      = (Some [1], ?g')"
    by (simp add: updateModuleInfo_def Let_def entry_of_def ensureEntryFromUrl_def
        example_graph_def update_node_def node_at_def set_add_def set_delete_def
        example_node_def new_ModuleNode_def)
  have p: "importedModules (node_at (nodes example_graph) 0) = [1, 2]"
    by (simp add: example_graph_def node_at_def)
  have n: "1 \<notin> set (importedModules (node_at (nodes ?g') 0))"
    by (simp add: node_at_def)
  from updateModuleInfo_effect[OF m u] p n
  have "0 \<notin> set (importers (node_at (nodes ?g') 1))" by simp
  with m u p show ?thesis by simp
qed

subsection \<open>Accepted deps and imports\<close>

text \<open>
  The operations of the graph that the invariant is about, a run of them from a
  graph, and the invariant: every accepted dep of a node is one of its imports or
  the node itself.
\<close>


datatype GraphOp =
    EnsureEntryFromUrl string bool
  | UpdateModuleInfo ref "UrlOrNode list" "UrlOrNode list" bool bool
  | OnFileChange string
  | InvalidateAll
  | CreateFileOnlyEntry string

fun apply_op :: "GraphEnv \<Rightarrow> GraphOp \<Rightarrow> ModuleGraph \<Rightarrow> ModuleGraph" where
  "apply_op env (EnsureEntryFromUrl rawUrl ssr) g = snd (ensureEntryFromUrl env rawUrl ssr g)"
| "apply_op env (UpdateModuleInfo m imported accepted selfAccepting ssr) g =
     snd (updateModuleInfo env m imported accepted selfAccepting ssr g)"
| "apply_op env (OnFileChange f) g = onFileChange g f"
| "apply_op env InvalidateAll g = invalidateAll g"
| "apply_op env (CreateFileOnlyEntry f) g = snd (createFileOnlyEntry env f g)"

definition run_ops :: "GraphEnv \<Rightarrow> GraphOp list \<Rightarrow> ModuleGraph \<Rightarrow> ModuleGraph" where
  "run_ops env ops g = fold (apply_op env) ops g"

definition accepted_within_imports :: "ModuleGraph \<Rightarrow> bool" where
  "accepted_within_imports g \<longleftrightarrow>
     (\<forall>r<length (nodes g).
        set (acceptedHmrDeps (node_at (nodes g) r))
          \<subseteq> insert r (set (importedModules (node_at (nodes g) r))))"

fun op_ok :: "GraphOp \<Rightarrow> ModuleGraph \<Rightarrow> bool" where
  "op_ok (UpdateModuleInfo m imported accepted selfAccepting ssr) g =
     (m < length (nodes g) \<and> set accepted \<subseteq> insert (Node m) (set imported))"
| "op_ok _ g = True"

fun ops_ok :: "GraphEnv \<Rightarrow> GraphOp list \<Rightarrow> ModuleGraph \<Rightarrow> bool" where
  "ops_ok env [] g = True"
| "ops_ok env (x # rest) g = (op_ok x g \<and> ops_ok env rest (apply_op env x g))"

lemma accepted_within_imports_all:
  "accepted_within_imports g \<longleftrightarrow>
     (\<forall>r. set (acceptedHmrDeps (node_at (nodes g) r))
            \<subseteq> insert r (set (importedModules (node_at (nodes g) r))))"
proof
  assume a: "accepted_within_imports g"
  show "\<forall>r. set (acceptedHmrDeps (node_at (nodes g) r))
            \<subseteq> insert r (set (importedModules (node_at (nodes g) r)))"
  proof
    fix r
    show "set (acceptedHmrDeps (node_at (nodes g) r))
            \<subseteq> insert r (set (importedModules (node_at (nodes g) r)))"
    proof (cases "r < length (nodes g)")
      case True
      with a show ?thesis by (simp add: accepted_within_imports_def)
    next
      case False
      then show ?thesis by (simp add: node_at_blank blank_node_def)
    qed
  qed
next
  assume "\<forall>r. set (acceptedHmrDeps (node_at (nodes g) r))
            \<subseteq> insert r (set (importedModules (node_at (nodes g) r)))"
  then show "accepted_within_imports g" by (simp add: accepted_within_imports_def)
qed

lemma same_edges_accepted_within_imports:
  assumes "same_edges (nodes g) (nodes g')" "accepted_within_imports g"
  shows "accepted_within_imports g'"
  using assms unfolding accepted_within_imports_all by (simp add: same_edges_def)

lemma invalidateSSRModule_same_edges:
  "same_edges (fst st) (fst (invalidateSSRModule m st))"
  "same_edges (fst st) (fst (invalidateSSR_importers is st))"
proof (induct m st and "is" st rule: invalidateSSRModule_invalidateSSR_importers.induct)
  case (1 m h seen)
  show ?case
  proof (cases "m \<in> seen")
    case True
    then show ?thesis by (simp add: invalidateSSRModule.simps)
  next
    case False
    let ?h' = "update_node m (\<lambda>n. n\<lparr>ssrModule := None\<rparr>) h"
    have "same_edges h ?h'" by (auto simp: same_edges_def node_at_update_node)
    moreover have "same_edges ?h' (fst (invalidateSSR_importers (importers (node_at ?h' m))
        (?h', insert m seen)))"
      using 1[OF False refl refl] by simp
    ultimately show ?thesis using False
      by (simp add: invalidateSSRModule.simps Let_def same_edges_trans)
  qed
next
  case (2 st)
  show ?case by (simp add: invalidateSSR_importers.simps)
next
  case (3 importer rest st)
  then show ?case
    by (simp add: invalidateSSR_importers.simps) (blast intro: same_edges_trans)
qed

lemma invalidateModule_same_edges: "same_edges (fst st) (fst (invalidateModule m st))"
proof -
  let ?h = "update_node m (\<lambda>n. n\<lparr>info := None, transformResult := None, ssrTransformResult := None\<rparr>) (fst st)"
  have "same_edges (fst st) ?h" by (auto simp: same_edges_def node_at_update_node)
  moreover have "same_edges ?h (fst (invalidateSSRModule m (?h, snd st)))"
    using invalidateSSRModule_same_edges(1)[of "(?h, snd st)" m] by simp
  ultimately show ?thesis unfolding invalidateModule_def by (rule same_edges_trans)
qed

lemma fold_invalidateModule_same_edges:
  "same_edges (fst st) (fst (fold invalidateModule ms st))"
proof (induction ms arbitrary: st)
  case Nil
  show ?case by simp
next
  case (Cons m ms)
  have "same_edges (fst st) (fst (invalidateModule m st))" by (rule invalidateModule_same_edges)
  moreover have "same_edges (fst (invalidateModule m st)) (fst (fold invalidateModule ms (invalidateModule m st)))"
    by (rule Cons.IH)
  ultimately show ?case by (simp add: same_edges_trans)
qed

lemma onFileChange_same_edges: "same_edges (nodes g) (nodes (onFileChange g f))"
  using fold_invalidateModule_same_edges[of "(nodes g, {})"]
  by (simp add: onFileChange_def split: option.splits)

lemma invalidateAll_same_edges: "same_edges (nodes g) (nodes (invalidateAll g))"
  using fold_invalidateModule_same_edges[of "(nodes g, {})"]
  by (simp add: invalidateAll_def)

lemma ensureEntryFromUrl_same_edges:
  "same_edges (nodes g) (nodes (snd (ensureEntryFromUrl env u ssr g)))"
  using entry_of_facts(6)[of env ssr "Url u" g]
  by (cases "ensureEntryFromUrl env u ssr g") (simp add: entry_of_def)

lemma createFileOnlyEntry_same_edges:
  "same_edges (nodes g) (nodes (snd (createFileOnlyEntry env f g)))"
proof -
  have "nodes (snd (createFileOnlyEntry env f g)) = nodes g
      \<or> (\<exists>n. nodes (snd (createFileOnlyEntry env f g)) = nodes g @ [n] \<and> fresh_node n)"
    by (auto simp: createFileOnlyEntry_def Let_def fresh_node_def new_ModuleNode_def
        split: option.splits)
  then show ?thesis by (auto simp: same_edges_def node_at_append_fresh)
qed

lemma updateModuleInfo_accepted_within_imports:
  assumes m: "m < length (nodes g)"
    and sub: "set accepted \<subseteq> insert (Node m) (set imported)"
    and inv: "accepted_within_imports g"
  shows "accepted_within_imports (snd (updateModuleInfo env m imported accepted selfAccepting ssr g))"
proof -
  obtain nl g' where u: "updateModuleInfo env m imported accepted selfAccepting ssr g = (nl, g')"
    by (cases "updateModuleInfo env m imported accepted selfAccepting ssr g")
  note U = updateModuleInfo_unfold[OF m u]
  have "set (acceptedHmrDeps (node_at (nodes g') r))
          \<subseteq> insert r (set (importedModules (node_at (nodes g') r)))" for r
  proof (cases "r = m")
    case True
    have "Some ` set (acceptedHmrDeps (node_at (nodes g') m))
        \<subseteq> resolve_ref env ssr g' ` insert (Node m) (set imported)"
      unfolding U(2) using sub by blast
    also have "\<dots> = insert (Some m) (Some ` set (importedModules (node_at (nodes g') m)))"
      unfolding U(1) by (simp add: resolve_ref_def)
    finally show ?thesis using True by auto
  next
    case False
    from inv have "set (acceptedHmrDeps (node_at (nodes g) r))
          \<subseteq> insert r (set (importedModules (node_at (nodes g) r)))"
      unfolding accepted_within_imports_all by blast
    with U(7)[OF False] show ?thesis by simp
  qed
  then show ?thesis unfolding accepted_within_imports_all by (simp add: u)
qed

lemma apply_op_accepted_within_imports:
  assumes "op_ok x g" "accepted_within_imports g"
  shows "accepted_within_imports (apply_op env x g)"
proof (cases x)
  case (EnsureEntryFromUrl u ssr)
  then show ?thesis
    using same_edges_accepted_within_imports[OF ensureEntryFromUrl_same_edges assms(2)] by simp
next
  case (UpdateModuleInfo m imported accepted selfAccepting ssr)
  then show ?thesis using assms updateModuleInfo_accepted_within_imports by simp
next
  case (OnFileChange f)
  then show ?thesis
    using same_edges_accepted_within_imports[OF onFileChange_same_edges assms(2)] by simp
next
  case InvalidateAll
  then show ?thesis
    using same_edges_accepted_within_imports[OF invalidateAll_same_edges assms(2)] by simp
next
  case (CreateFileOnlyEntry f)
  then show ?thesis
    using same_edges_accepted_within_imports[OF createFileOnlyEntry_same_edges assms(2)] by simp
qed


text \<open>
  Claim C7 as stated fails: \<open>updateModuleInfo\<close> stores the accepted modules it is given
  and never compares them with the imports. After \<open>ensureEntryFromUrl("/a")\<close> and
  \<open>updateModuleInfo(a, {}, {"/x"}, false)\<close> the node \<open>/a\<close> accepts \<open>/x\<close> and imports
  nothing.
\<close>

theorem accepted_within_imports_counterexample:
  "\<not> accepted_within_imports
       (run_ops example_env
          [EnsureEntryFromUrl ''/a'' False, UpdateModuleInfo 0 [] [Url ''/x''] False False]
          new_ModuleGraph)"
proof -
  have "run_ops example_env
          [EnsureEntryFromUrl ''/a'' False, UpdateModuleInfo 0 [] [Url ''/x''] False False]
          new_ModuleGraph
      = \<lparr>nodes = [(example_node ''/a'')\<lparr>acceptedHmrDeps := [1]\<rparr>, example_node ''/x''],
         urlToModuleMap = [(''/a'', 0), (''/x'', 1)],
         idToModuleMap = [(''/a'', 0), (''/x'', 1)],
         fileToModulesMap = [(''/a'', [0]), (''/x'', [1])],
         safeModulesPath = []\<rparr>"
    by (simp add: run_ops_def updateModuleInfo_def Let_def entry_of_def ensureEntryFromUrl_def
        new_ModuleGraph_def update_node_def node_at_def set_add_def set_delete_def
        example_node_def new_ModuleNode_def)
  moreover have "\<not> accepted_within_imports
      \<lparr>nodes = [(example_node ''/a'')\<lparr>acceptedHmrDeps := [1]\<rparr>, example_node ''/x''],
         urlToModuleMap = [(''/a'', 0), (''/x'', 1)],
         idToModuleMap = [(''/a'', 0), (''/x'', 1)],
         fileToModulesMap = [(''/a'', [0]), (''/x'', [1])],
         safeModulesPath = []\<rparr>" (is "\<not> accepted_within_imports ?g")
  proof
    assume "accepted_within_imports ?g"
    then have "set (acceptedHmrDeps (node_at (nodes ?g) 0))
        \<subseteq> insert 0 (set (importedModules (node_at (nodes ?g) 0)))"
      unfolding accepted_within_imports_def by simp
    then show False
      by (simp add: node_at_def example_node_def new_ModuleNode_def)
  qed
  ultimately show ?thesis by simp
qed


text \<open>
  Claim C7, amended. The invariant is kept by every run of \<open>ensureEntryFromUrl\<close>,
  \<open>updateModuleInfo\<close>, \<open>onFileChange\<close>, \<open>invalidateAll\<close> and \<open>createFileOnlyEntry\<close>
  in which each \<open>updateModuleInfo(m, I, A, s)\<close> is called on a node of the graph with
  \<open>A\<close> a subset of \<open>I\<close> united with \<open>{m}\<close>; in particular it holds after every such
  run from the empty graph.
\<close>

theorem accepted_within_imports_preserved:
  assumes "accepted_within_imports g" and "ops_ok env ops g"
  shows "accepted_within_imports (run_ops env ops g)"
  using assms unfolding run_ops_def
proof (induction ops arbitrary: g)
  case Nil
  then show ?case by simp
next
  case (Cons x rest)
  from Cons.prems have "op_ok x g" "ops_ok env rest (apply_op env x g)" by simp_all
  moreover from this(1) Cons.prems(1) have "accepted_within_imports (apply_op env x g)"
    by (rule apply_op_accepted_within_imports)
  ultimately show ?case using Cons.IH by simp
qed


theorem accepted_within_imports_preserved_witness:
  "accepted_within_imports new_ModuleGraph \<and>
   ops_ok example_env
     [EnsureEntryFromUrl ''/a'' False, UpdateModuleInfo 0 [Url ''/b''] [Url ''/b'', Node 0] True False,
      OnFileChange ''/a'', InvalidateAll, CreateFileOnlyEntry ''/c.css'']
     new_ModuleGraph \<and>
   accepted_within_imports
     (run_ops example_env
        [EnsureEntryFromUrl ''/a'' False, UpdateModuleInfo 0 [Url ''/b''] [Url ''/b'', Node 0] True False,
         OnFileChange ''/a'', InvalidateAll, CreateFileOnlyEntry ''/c.css'']
        new_ModuleGraph)"
proof -
  have i: "accepted_within_imports new_ModuleGraph"
    by (simp add: accepted_within_imports_def new_ModuleGraph_def)
  have o: "ops_ok example_env
     [EnsureEntryFromUrl ''/a'' False, UpdateModuleInfo 0 [Url ''/b''] [Url ''/b'', Node 0] True False,
      OnFileChange ''/a'', InvalidateAll, CreateFileOnlyEntry ''/c.css'']
     new_ModuleGraph"
    by (simp add: ensureEntryFromUrl_def new_ModuleGraph_def Let_def)
  from accepted_within_imports_preserved[OF i o] i o show ?thesis by simp
qed


section \<open>Properties of hot module replacement\<close>

subsection \<open>Dead ends of the boundary walk\<close>

text \<open>
  The nodes the walk from \<open>node\<close> with chain \<open>chain\<close> may recurse into, each with the
  chain it is visited with: the walk goes from a node that does not accept itself to
  an importer that does not accept the node and is not in the chain. A dead end at a
  node is one of the three conditions under which \<open>propagateUpdate\<close> returns \<open>true\<close>
  there.
\<close>


inductive reaches :: "heap \<Rightarrow> ref \<Rightarrow> ref list \<Rightarrow> ref \<Rightarrow> ref list \<Rightarrow> bool" for h where
  here: "reaches h node chain node chain"
| through: "\<not> isSelfAccepting (node_at h node) \<Longrightarrow>
     importer \<in> set (importers (node_at h node)) \<Longrightarrow>
     node \<notin> set (acceptedHmrDeps (node_at h importer)) \<Longrightarrow>
     importer \<notin> set chain \<Longrightarrow>
     reaches h importer (chain @ [importer]) n c \<Longrightarrow>
     reaches h node chain n c"

definition dead_end_at :: "GraphEnv \<Rightarrow> heap \<Rightarrow> ref \<Rightarrow> ref list \<Rightarrow> bool" where
  "dead_end_at env h node chain \<longleftrightarrow>
     \<not> isSelfAccepting (node_at h node) \<and>
     (importers (node_at h node) = [] \<or>
      (\<not> isCSSRequest env (url (node_at h node)) \<and>
       (\<forall>i\<in>set (importers (node_at h node)). isCSSRequest env (url (node_at h i)))) \<or>
      (\<exists>i\<in>set (importers (node_at h node)).
         node \<notin> set (acceptedHmrDeps (node_at h i)) \<and> i \<in> set chain))"

text \<open>
  Every call of \<open>propagateUpdate\<close> that the walk may make: besides the steps of
  \<open>reaches\<close>, the walk goes from a node that accepts itself to each of its importers
  that is a CSS request and is not in the chain.
\<close>

inductive visits :: "GraphEnv \<Rightarrow> heap \<Rightarrow> ref \<Rightarrow> ref list \<Rightarrow> ref \<Rightarrow> ref list \<Rightarrow> bool" for env h where
  start: "visits env h node chain node chain"
| importer: "\<not> isSelfAccepting (node_at h node) \<Longrightarrow>
     importer \<in> set (importers (node_at h node)) \<Longrightarrow>
     node \<notin> set (acceptedHmrDeps (node_at h importer)) \<Longrightarrow>
     importer \<notin> set chain \<Longrightarrow>
     visits env h importer (chain @ [importer]) n c \<Longrightarrow>
     visits env h node chain n c"
| css_importer: "isSelfAccepting (node_at h node) \<Longrightarrow>
     importer \<in> set (importers (node_at h node)) \<Longrightarrow>
     isCSSRequest env (url (node_at h importer)) \<Longrightarrow>
     importer \<notin> set chain \<Longrightarrow>
     visits env h importer (chain @ [importer]) n c \<Longrightarrow>
     visits env h node chain n c"

lemma reaches_visits: "reaches h node chain n c \<Longrightarrow> visits env h node chain n c"
  by (induction rule: reaches.induct) (auto intro: visits.intros)

definition dead_end_reached :: "GraphEnv \<Rightarrow> heap \<Rightarrow> ref \<Rightarrow> ref list \<Rightarrow> bool" where
  "dead_end_reached env h node chain \<longleftrightarrow>
     (\<exists>n c. reaches h node chain n c \<and> dead_end_at env h n c)"

lemma dead_end_reached_unfold:
  "dead_end_reached env h node chain \<longleftrightarrow>
     dead_end_at env h node chain \<or>
     (\<not> isSelfAccepting (node_at h node) \<and>
      (\<exists>i\<in>set (importers (node_at h node)).
         node \<notin> set (acceptedHmrDeps (node_at h i)) \<and> i \<notin> set chain \<and>
         dead_end_reached env h i (chain @ [i])))"
proof
  assume "dead_end_reached env h node chain"
  then obtain n c where r: "reaches h node chain n c" and d: "dead_end_at env h n c"
    unfolding dead_end_reached_def by blast
  from r show "dead_end_at env h node chain \<or>
     (\<not> isSelfAccepting (node_at h node) \<and>
      (\<exists>i\<in>set (importers (node_at h node)).
         node \<notin> set (acceptedHmrDeps (node_at h i)) \<and> i \<notin> set chain \<and>
         dead_end_reached env h i (chain @ [i])))"
  proof (cases rule: reaches.cases)
    case here
    with d show ?thesis by simp
  next
    case (through importer)
    with d have "dead_end_reached env h importer (chain @ [importer])"
      unfolding dead_end_reached_def by blast
    with through show ?thesis by blast
  qed
next
  assume "dead_end_at env h node chain \<or>
     (\<not> isSelfAccepting (node_at h node) \<and>
      (\<exists>i\<in>set (importers (node_at h node)).
         node \<notin> set (acceptedHmrDeps (node_at h i)) \<and> i \<notin> set chain \<and>
         dead_end_reached env h i (chain @ [i])))"
  then show "dead_end_reached env h node chain"
  proof
    assume "dead_end_at env h node chain"
    with reaches.here[of h node chain] show ?thesis unfolding dead_end_reached_def by blast
  next
    assume "\<not> isSelfAccepting (node_at h node) \<and>
      (\<exists>i\<in>set (importers (node_at h node)).
         node \<notin> set (acceptedHmrDeps (node_at h i)) \<and> i \<notin> set chain \<and>
         dead_end_reached env h i (chain @ [i]))"
    then obtain i n c where "\<not> isSelfAccepting (node_at h node)"
      "i \<in> set (importers (node_at h node))" "node \<notin> set (acceptedHmrDeps (node_at h i))"
      "i \<notin> set chain" "reaches h i (chain @ [i]) n c" "dead_end_at env h n c"
      unfolding dead_end_reached_def by blast
    then have "reaches h node chain n c \<and> dead_end_at env h n c"
      by (blast intro: reaches.through)
    then show ?thesis unfolding dead_end_reached_def by blast
  qed
qed

lemma propagate_dead_end:
  "fst (propagateUpdate env h node boundaries currentChain)
     \<longleftrightarrow> dead_end_reached env h node currentChain"
  "propagate_css_importers env h importers0 boundaries currentChain
     = propagate_css_importers env h importers0 boundaries currentChain"
  "fst (propagate_importers env h node importers1 boundaries currentChain)
     \<longleftrightarrow> (\<exists>i\<in>set importers1. node \<notin> set (acceptedHmrDeps (node_at h i)) \<and>
            (i \<in> set currentChain \<or> dead_end_reached env h i (currentChain @ [i])))"
proof (induct env h node boundaries currentChain and env h importers0 boundaries currentChain
    and env h node importers1 boundaries currentChain
    rule: propagateUpdate_propagate_css_importers_propagate_importers.induct)
  case (1 env h node boundaries currentChain)
  show ?case
  proof (cases "isSelfAccepting (node_at h node)")
    case True
    then show ?thesis
      by (subst propagateUpdate.simps, subst dead_end_reached_unfold) (simp add: dead_end_at_def)
  next
    case sa: False
    show ?thesis
    proof (cases "importers (node_at h node) = []")
      case True
      then show ?thesis using sa
        by (subst propagateUpdate.simps, subst dead_end_reached_unfold) (simp add: dead_end_at_def)
    next
      case ni: False
      show ?thesis
      proof (cases "\<not> isCSSRequest env (url (node_at h node))
              \<and> (\<forall>i\<in>set (importers (node_at h node)). isCSSRequest env (url (node_at h i)))")
        case True
        then show ?thesis using sa ni
          by (subst propagateUpdate.simps, subst dead_end_reached_unfold) (simp add: dead_end_at_def)
      next
        case nc: False
        have "propagateUpdate env h node boundaries currentChain
            = propagate_importers env h node (importers (node_at h node)) boundaries currentChain"
          by (subst propagateUpdate.simps) (simp only: sa ni nc if_False)
        then have "fst (propagateUpdate env h node boundaries currentChain)
            = fst (propagate_importers env h node (importers (node_at h node)) boundaries currentChain)"
          by simp
        also have "\<dots> \<longleftrightarrow> (\<exists>i\<in>set (importers (node_at h node)).
              node \<notin> set (acceptedHmrDeps (node_at h i)) \<and>
              (i \<in> set currentChain \<or> dead_end_reached env h i (currentChain @ [i])))"
          using 1(2)[OF sa ni nc] .
        also have "\<dots> \<longleftrightarrow> dead_end_reached env h node currentChain"
        proof -
          have da: "dead_end_at env h node currentChain \<longleftrightarrow>
              (\<exists>i\<in>set (importers (node_at h node)).
                 node \<notin> set (acceptedHmrDeps (node_at h i)) \<and> i \<in> set currentChain)"
            unfolding dead_end_at_def using sa ni nc by blast
          show ?thesis
            unfolding dead_end_reached_unfold[of env h node currentChain] da using sa by blast
        qed
        finally show ?thesis .
      qed
    qed
  qed
next
  case (2 env h boundaries currentChain)
  show ?case ..
next
  case (3 env h importer rest boundaries currentChain)
  show ?case ..
next
  case (4 env h node boundaries currentChain)
  show ?case by (simp add: propagate_importers.simps)
next
  case (5 env h node importer rest boundaries currentChain)
  show ?case
  proof (cases "node \<in> set (acceptedHmrDeps (node_at h importer))")
    case True
    then show ?thesis using 5(1)[OF True]
      by (subst propagate_importers.simps) simp
  next
    case na: False
    show ?thesis
    proof (cases "importer \<in> set currentChain")
      case True
      then show ?thesis using na by (subst propagate_importers.simps) simp
    next
      case nc: False
      obtain d bs' where r: "propagateUpdate env h importer boundaries (currentChain @ [importer]) = (d, bs')"
        by (cases "propagateUpdate env h importer boundaries (currentChain @ [importer])")
      have d: "d \<longleftrightarrow> dead_end_reached env h importer (currentChain @ [importer])"
        using 5(2)[OF na nc] r by simp
      show ?thesis
      proof (cases d)
        case True
        then show ?thesis using na nc r d by (subst propagate_importers.simps) simp
      next
        case False
        have "fst (propagate_importers env h node (importer # rest) boundaries currentChain)
            = fst (propagate_importers env h node rest bs' currentChain)"
          using na nc r False by (subst propagate_importers.simps) simp
        moreover have "fst (propagate_importers env h node rest bs' currentChain)
            \<longleftrightarrow> (\<exists>i\<in>set rest. node \<notin> set (acceptedHmrDeps (node_at h i)) \<and>
                  (i \<in> set currentChain \<or> dead_end_reached env h i (currentChain @ [i])))"
          using 5(3)[OF na nc r[symmetric]] False by simp
        ultimately show ?thesis using False d nc by auto
      qed
    qed
  qed
qed

lemma propagate_boundaries_grow:
  "set boundaries \<subseteq> set (snd (propagateUpdate env h node boundaries currentChain))"
  "set boundaries \<subseteq> set (propagate_css_importers env h importers0 boundaries currentChain)"
  "set boundaries \<subseteq> set (snd (propagate_importers env h node importers1 boundaries currentChain))"
proof (induct env h node boundaries currentChain and env h importers0 boundaries currentChain
    and env h node importers1 boundaries currentChain
    rule: propagateUpdate_propagate_css_importers_propagate_importers.induct)
  case (1 env h node boundaries currentChain)
  show ?case
  proof (cases "isSelfAccepting (node_at h node)")
    case True
    from 1(1)[OF True] show ?thesis
      using True by (subst propagateUpdate.simps) auto
  next
    case sa: False
    show ?thesis
    proof (cases "importers (node_at h node) = [] \<or> (\<not> isCSSRequest env (url (node_at h node))
              \<and> (\<forall>i\<in>set (importers (node_at h node)). isCSSRequest env (url (node_at h i))))")
      case True
      then show ?thesis using sa by (subst propagateUpdate.simps) auto
    next
      case False
      then have ni: "importers (node_at h node) \<noteq> []"
        and nc: "\<not> (\<not> isCSSRequest env (url (node_at h node))
              \<and> (\<forall>i\<in>set (importers (node_at h node)). isCSSRequest env (url (node_at h i))))"
        by blast+
      have "propagateUpdate env h node boundaries currentChain
            = propagate_importers env h node (importers (node_at h node)) boundaries currentChain"
        by (subst propagateUpdate.simps) (simp only: sa ni nc if_False)
      with 1(2)[OF sa ni nc] show ?thesis by simp
    qed
  qed
next
  case (2 env h boundaries currentChain)
  show ?case by (simp add: propagate_css_importers.simps)
next
  case (3 env h importer rest boundaries currentChain)
  show ?case
  proof (cases "isCSSRequest env (url (node_at h importer)) \<and> importer \<notin> set currentChain")
    case True
    from 3(1)[OF True] 3(2)[OF True] show ?thesis
      using True by (subst propagate_css_importers.simps) auto
  next
    case False
    from 3(3)[OF False] show ?thesis
      using False by (subst propagate_css_importers.simps) auto
  qed
next
  case (4 env h node boundaries currentChain)
  show ?case by (simp add: propagate_importers.simps)
next
  case (5 env h node importer rest boundaries currentChain)
  show ?case
  proof (cases "node \<in> set (acceptedHmrDeps (node_at h importer))")
    case True
    from 5(1)[OF True] show ?thesis
      using True by (subst propagate_importers.simps) auto
  next
    case na: False
    show ?thesis
    proof (cases "importer \<in> set currentChain")
      case True
      then show ?thesis using na by (subst propagate_importers.simps) simp
    next
      case nc: False
      obtain d bs' where r: "propagateUpdate env h importer boundaries (currentChain @ [importer]) = (d, bs')"
        by (cases "propagateUpdate env h importer boundaries (currentChain @ [importer])")
      have g: "set boundaries \<subseteq> set bs'" using 5(2)[OF na nc] r by simp
      show ?thesis
      proof (cases d)
        case True
        then show ?thesis using na nc r g by (subst propagate_importers.simps) simp
      next
        case False
        have "propagate_importers env h node (importer # rest) boundaries currentChain
            = propagate_importers env h node rest bs' currentChain"
          using na nc r False by (subst propagate_importers.simps) simp
        moreover have "set bs' \<subseteq> set (snd (propagate_importers env h node rest bs' currentChain))"
          using 5(3)[OF na nc r[symmetric]] False by simp
        ultimately show ?thesis using g by auto
      qed
    qed
  qed
qed

definition accepted_edge :: "heap \<Rightarrow> Boundary \<Rightarrow> bool" where
  "accepted_edge h b \<longleftrightarrow>
     \<not> isSelfAccepting (node_at h (acceptedVia b)) \<and>
     boundary b \<in> set (importers (node_at h (acceptedVia b))) \<and>
     acceptedVia b \<in> set (acceptedHmrDeps (node_at h (boundary b)))"

lemma propagate_boundaries:
  "\<not> fst (propagateUpdate env h node boundaries currentChain) \<Longrightarrow>
     (\<forall>n c i. reaches h node currentChain n c \<and> accepted_edge h \<lparr>boundary = i, acceptedVia = n\<rparr>
        \<longrightarrow> \<lparr>boundary = i, acceptedVia = n\<rparr>
              \<in> set (snd (propagateUpdate env h node boundaries currentChain)))"
  "propagate_css_importers env h importers0 boundaries currentChain
     = propagate_css_importers env h importers0 boundaries currentChain"
  "\<not> fst (propagate_importers env h node importers1 boundaries currentChain) \<Longrightarrow>
     (\<forall>j\<in>set importers1.
        (node \<in> set (acceptedHmrDeps (node_at h j)) \<longrightarrow>
           \<lparr>boundary = j, acceptedVia = node\<rparr>
             \<in> set (snd (propagate_importers env h node importers1 boundaries currentChain))) \<and>
        (node \<notin> set (acceptedHmrDeps (node_at h j)) \<longrightarrow>
           (\<forall>n c i. reaches h j (currentChain @ [j]) n c
                \<and> accepted_edge h \<lparr>boundary = i, acceptedVia = n\<rparr>
              \<longrightarrow> \<lparr>boundary = i, acceptedVia = n\<rparr>
                    \<in> set (snd (propagate_importers env h node importers1 boundaries currentChain)))))"
proof (induct env h node boundaries currentChain and env h importers0 boundaries currentChain
    and env h node importers1 boundaries currentChain
    rule: propagateUpdate_propagate_css_importers_propagate_importers.induct)
  case (1 env h node boundaries currentChain)
  note nd = 1(3)
  show ?case
  proof (intro allI impI, elim conjE)
    fix n c i
    assume r: "reaches h node currentChain n c"
      and e: "accepted_edge h \<lparr>boundary = i, acceptedVia = n\<rparr>"
    from e have nsa: "\<not> isSelfAccepting (node_at h n)"
      and ii: "i \<in> set (importers (node_at h n))"
      and ia: "n \<in> set (acceptedHmrDeps (node_at h i))"
      by (simp_all add: accepted_edge_def)
    have sa: "\<not> isSelfAccepting (node_at h node)"
      using r nsa by (cases rule: reaches.cases) simp_all
    have ni: "importers (node_at h node) \<noteq> []"
      using nd sa by (subst (asm) propagateUpdate.simps) (auto split: if_splits)
    have nc: "\<not> (\<not> isCSSRequest env (url (node_at h node))
              \<and> (\<forall>i\<in>set (importers (node_at h node)). isCSSRequest env (url (node_at h i))))"
      using nd sa ni by (subst (asm) propagateUpdate.simps) (auto split: if_splits)
    have eq: "propagateUpdate env h node boundaries currentChain
            = propagate_importers env h node (importers (node_at h node)) boundaries currentChain"
      by (subst propagateUpdate.simps) (simp only: sa ni nc if_False)
    with nd have "\<not> fst (propagate_importers env h node (importers (node_at h node)) boundaries currentChain)"
      by simp
    note ih = 1(2)[OF sa ni nc this, folded eq]
    from r show "\<lparr>boundary = i, acceptedVia = n\<rparr>
        \<in> set (snd (propagateUpdate env h node boundaries currentChain))"
    proof (cases rule: reaches.cases)
      case here
      with ih ii ia show ?thesis by blast
    next
      case (through importer)
      with ih e show ?thesis by blast
    qed
  qed
next
  case (2 env h boundaries currentChain)
  show ?case ..
next
  case (3 env h importer rest boundaries currentChain)
  show ?case ..
next
  case (4 env h node boundaries currentChain)
  show ?case by simp
next
  case (5 env h node importer rest boundaries currentChain)
  note nd = 5(4)
  let ?res = "propagate_importers env h node (importer # rest) boundaries currentChain"
  show ?case
  proof (cases "node \<in> set (acceptedHmrDeps (node_at h importer))")
    case True
    let ?b = "\<lparr>boundary = importer, acceptedVia = node\<rparr>"
    have eq: "?res = propagate_importers env h node rest (boundaries @ [?b]) currentChain"
      using True by (subst propagate_importers.simps) simp
    with nd have "\<not> fst (propagate_importers env h node rest (boundaries @ [?b]) currentChain)"
      by simp
    note ih = 5(1)[OF True this, folded eq]
    have "?b \<in> set (snd ?res)"
      using propagate_boundaries_grow(3)[of "boundaries @ [?b]" env h node rest currentChain]
      unfolding eq by simp
    with ih True show ?thesis by auto
  next
    case na: False
    have nc: "importer \<notin> set currentChain"
      using nd na by (subst (asm) propagate_importers.simps) (auto split: if_splits)
    obtain d bs' where r: "propagateUpdate env h importer boundaries (currentChain @ [importer]) = (d, bs')"
      by (cases "propagateUpdate env h importer boundaries (currentChain @ [importer])")
    have d: "\<not> d"
      using nd na nc r by (subst (asm) propagate_importers.simps) (auto split: if_splits)
    have eq: "?res = propagate_importers env h node rest bs' currentChain"
      using na nc r d by (subst propagate_importers.simps) simp
    with nd have "\<not> fst (propagate_importers env h node rest bs' currentChain)" by simp
    note ih3 = 5(3)[OF na nc r[symmetric] _ this, folded eq]
    have ih2: "\<forall>n c i. reaches h importer (currentChain @ [importer]) n c
                \<and> accepted_edge h \<lparr>boundary = i, acceptedVia = n\<rparr>
              \<longrightarrow> \<lparr>boundary = i, acceptedVia = n\<rparr> \<in> set bs'"
      using 5(2)[OF na nc] r d by simp
    have "set bs' \<subseteq> set (snd ?res)"
      using propagate_boundaries_grow(3)[of bs' env h node rest currentChain] unfolding eq .
    with ih2 have "\<forall>n c i. reaches h importer (currentChain @ [importer]) n c
                \<and> accepted_edge h \<lparr>boundary = i, acceptedVia = n\<rparr>
              \<longrightarrow> \<lparr>boundary = i, acceptedVia = n\<rparr> \<in> set (snd ?res)"
      by blast
    with ih3 d na show ?thesis by auto
  qed
qed

subsection \<open>Two sample graphs\<close>

definition example_result :: TransformResult where
  "example_result = \<lparr>code = ''export default 1'', smap = None, etag = Some ''W/etag'',
     deps = None, dynamicDeps = None\<rparr>"

text \<open>\<open>/A\<close> imports \<open>/B\<close>, \<open>/B\<close> accepts itself; both have a cached transform result.\<close>

definition self_accepting_leaf :: heap where
  "self_accepting_leaf =
     [(example_node ''/A'')\<lparr>importedModules := [1], transformResult := Some example_result\<rparr>,
      (example_node ''/B'')\<lparr>importers := [0], isSelfAccepting := True,
                             transformResult := Some example_result\<rparr>]"

text \<open>\<open>/A\<close> imports \<open>/B\<close> and accepts it; both have a cached transform result.\<close>

definition dep_accepting_parent :: heap where
  "dep_accepting_parent =
     [(example_node ''/A'')\<lparr>importedModules := [1], acceptedHmrDeps := [1],
                             transformResult := Some example_result\<rparr>,
      (example_node ''/B'')\<lparr>importers := [0], transformResult := Some example_result\<rparr>]"

text \<open>\<open>/B.js\<close> accepts itself; its only importer is the style sheet \<open>/t.css\<close>, which nothing imports.\<close>

definition css_importer_of_leaf :: heap where
  "css_importer_of_leaf =
     [(example_node ''/B.js'')\<lparr>importers := [1], isSelfAccepting := True\<rparr>,
      (example_node ''/t.css'')\<lparr>importedModules := [0]\<rparr>]"

lemma example_isCSSRequest [simp]: "isCSSRequest example_env u = endsWith u ''.css''"
  by (simp add: example_env_def)

lemma example_isDirectCSSRequest [simp]: "isDirectCSSRequest example_env u = endsWith u ''.css''"
  by (simp add: example_env_def)

lemmas hmr_eval =
  updateModules_def invalidate.simps invalidate_importers.simps propagateUpdate.simps
  propagate_css_importers.simps propagate_importers.simps to_update_def
  update_node_def node_at_def example_node_def new_ModuleNode_def endsWith_def Let_def


text \<open>
  Claim C6 as stated fails: not every node that the walk reaches counts. The walk
  from the self-accepting \<open>/B.js\<close> goes into its CSS importer \<open>/t.css\<close>, which does not
  accept itself and has no importers; the call there returns \<open>true\<close>, the loop drops
  that result, and \<open>propagateUpdate\<close> returns \<open>false\<close> with \<open>/B.js\<close> as the only
  boundary.
\<close>

theorem propagateUpdate_dead_end_counterexample:
  "visits example_env css_importer_of_leaf 0 [0] 1 [0, 1] \<and>
   \<not> isSelfAccepting (node_at css_importer_of_leaf 1) \<and>
   importers (node_at css_importer_of_leaf 1) = [] \<and>
   dead_end_at example_env css_importer_of_leaf 1 [0, 1] \<and>
   propagateUpdate example_env css_importer_of_leaf 0 [] [0]
     = (False, [\<lparr>boundary = 0, acceptedVia = 0\<rparr>])"
proof -
  have v: "visits example_env css_importer_of_leaf 0 [0] 1 [0, 1]"
    using visits.css_importer[of css_importer_of_leaf 0 1 example_env "[0]" 1 "[0, 1]"]
      visits.start[of example_env css_importer_of_leaf 1 "[0, 1]"]
    by (simp add: css_importer_of_leaf_def node_at_def example_node_def new_ModuleNode_def
        endsWith_def)
  have rest: "\<not> isSelfAccepting (node_at css_importer_of_leaf 1) \<and>
   importers (node_at css_importer_of_leaf 1) = [] \<and>
   dead_end_at example_env css_importer_of_leaf 1 [0, 1] \<and>
   propagateUpdate example_env css_importer_of_leaf 0 [] [0]
     = (False, [\<lparr>boundary = 0, acceptedVia = 0\<rparr>])"
    by (simp add: css_importer_of_leaf_def dead_end_at_def hmr_eval)
  from v rest show ?thesis by blast
qed

text \<open>
  Claim C6, amended. \<open>propagateUpdate\<close> returns \<open>true\<close> exactly when, at some node that
  does not accept itself and that the walk from the changed module reaches through
  nodes that do not accept themselves and importers that do not accept them, the
  node has no importers, or the node is not a CSS request and all its importers are,
  or an importer that does not accept the node is already in the current chain. When
  it returns \<open>false\<close>, every importer of such a node that declares the node in its
  \<open>acceptedHmrDeps\<close> is among the boundaries, with the node as \<open>acceptedVia\<close>; the loop
  adds it and goes on to the next importer without walking into it. At a node that
  accepts itself the result is \<open>false\<close> whatever the walk into its CSS importers
  finds: a dead end there is not reported. So a reported dead end is always one at a
  visited node, but not conversely.
\<close>

theorem propagateUpdate_dead_end:
  "(fst (propagateUpdate env h node boundaries currentChain)
      \<longleftrightarrow> (\<exists>n c. reaches h node currentChain n c \<and> dead_end_at env h n c)) \<and>
   (\<not> fst (propagateUpdate env h node boundaries currentChain) \<longrightarrow>
      (\<forall>n c. reaches h node currentChain n c \<and> \<not> isSelfAccepting (node_at h n) \<longrightarrow>
         (\<forall>i\<in>set (importers (node_at h n)).
            n \<in> set (acceptedHmrDeps (node_at h i)) \<longrightarrow>
            \<lparr>boundary = i, acceptedVia = n\<rparr>
              \<in> set (snd (propagateUpdate env h node boundaries currentChain))))) \<and>
   (node \<in> set (acceptedHmrDeps (node_at h importer)) \<longrightarrow>
      propagate_importers env h node (importer # rest) boundaries currentChain
        = propagate_importers env h node rest
            (boundaries @ [\<lparr>boundary = importer, acceptedVia = node\<rparr>]) currentChain) \<and>
   (isSelfAccepting (node_at h node) \<longrightarrow>
      propagateUpdate env h node boundaries currentChain
        = (False, propagate_css_importers env h (importers (node_at h node))
                    (boundaries @ [\<lparr>boundary = node, acceptedVia = node\<rparr>]) currentChain)) \<and>
   (fst (propagateUpdate env h node boundaries currentChain) \<longrightarrow>
      (\<exists>n c. visits env h node currentChain n c \<and> dead_end_at env h n c))"
proof (intro conjI impI allI ballI)
  show "fst (propagateUpdate env h node boundaries currentChain)
      \<longleftrightarrow> (\<exists>n c. reaches h node currentChain n c \<and> dead_end_at env h n c)"
    using propagate_dead_end(1)[of env h node boundaries currentChain]
    by (simp add: dead_end_reached_def)
next
  fix n c i
  assume nd: "\<not> fst (propagateUpdate env h node boundaries currentChain)"
    and r: "reaches h node currentChain n c \<and> \<not> isSelfAccepting (node_at h n)"
    and i: "i \<in> set (importers (node_at h n))" "n \<in> set (acceptedHmrDeps (node_at h i))"
  from r i have "accepted_edge h \<lparr>boundary = i, acceptedVia = n\<rparr>"
    by (simp add: accepted_edge_def)
  with propagate_boundaries(1)[OF nd] r
  show "\<lparr>boundary = i, acceptedVia = n\<rparr>
      \<in> set (snd (propagateUpdate env h node boundaries currentChain))" by blast
next
  assume "node \<in> set (acceptedHmrDeps (node_at h importer))"
  then show "propagate_importers env h node (importer # rest) boundaries currentChain
        = propagate_importers env h node rest
            (boundaries @ [\<lparr>boundary = importer, acceptedVia = node\<rparr>]) currentChain"
    by (subst propagate_importers.simps) simp
next
  assume "isSelfAccepting (node_at h node)"
  then show "propagateUpdate env h node boundaries currentChain
        = (False, propagate_css_importers env h (importers (node_at h node))
                    (boundaries @ [\<lparr>boundary = node, acceptedVia = node\<rparr>]) currentChain)"
    by (subst propagateUpdate.simps) simp
next
  assume "fst (propagateUpdate env h node boundaries currentChain)"
  with propagate_dead_end(1)[of env h node boundaries currentChain]
  obtain n c where "reaches h node currentChain n c" "dead_end_at env h n c"
    unfolding dead_end_reached_def by blast
  with reaches_visits[of h node currentChain n c env]
  show "\<exists>n c. visits env h node currentChain n c \<and> dead_end_at env h n c" by blast
qed

theorem propagateUpdate_dead_end_witness:
  "propagateUpdate example_env dep_accepting_parent 1 [] [1]
     = (False, [\<lparr>boundary = 0, acceptedVia = 1\<rparr>]) \<and>
   \<not> (\<exists>n c. reaches dep_accepting_parent 1 [1] n c \<and> dead_end_at example_env dep_accepting_parent n c) \<and>
   fst (propagateUpdate example_env self_accepting_leaf 0 [] [0]) \<and>
   (\<exists>n c. reaches self_accepting_leaf 0 [0] n c \<and> dead_end_at example_env self_accepting_leaf n c) \<and>
   \<lparr>boundary = 0, acceptedVia = 1\<rparr>
     \<in> set (snd (propagateUpdate example_env dep_accepting_parent 1 [] [1])) \<and>
   propagateUpdate example_env self_accepting_leaf 1 [] [1]
     = (False, [\<lparr>boundary = 1, acceptedVia = 1\<rparr>]) \<and>
   (\<exists>n c. visits example_env self_accepting_leaf 0 [0] n c
      \<and> dead_end_at example_env self_accepting_leaf n c)"
proof -
  have p: "propagateUpdate example_env dep_accepting_parent 1 [] [1]
      = (False, [\<lparr>boundary = 0, acceptedVia = 1\<rparr>])"
    by (simp add: dep_accepting_parent_def hmr_eval)
  have q: "fst (propagateUpdate example_env self_accepting_leaf 0 [] [0])"
    by (simp add: self_accepting_leaf_def hmr_eval)
  have nd: "\<not> fst (propagateUpdate example_env dep_accepting_parent 1 [] [1])"
    unfolding p by simp
  have r: "reaches dep_accepting_parent 1 [1] 1 [1] \<and> \<not> isSelfAccepting (node_at dep_accepting_parent 1)"
    by (simp add: reaches.here dep_accepting_parent_def node_at_def example_node_def
        new_ModuleNode_def)
  have i: "0 \<in> set (importers (node_at dep_accepting_parent 1))"
    "1 \<in> set (acceptedHmrDeps (node_at dep_accepting_parent 0))"
    by (simp_all add: dep_accepting_parent_def node_at_def example_node_def new_ModuleNode_def)
  have sa: "isSelfAccepting (node_at self_accepting_leaf 1)"
    by (simp add: self_accepting_leaf_def node_at_def)
  have css: "propagate_css_importers example_env self_accepting_leaf
      (importers (node_at self_accepting_leaf 1)) ([] @ [\<lparr>boundary = 1, acceptedVia = 1\<rparr>]) [1]
      = [\<lparr>boundary = 1, acceptedVia = 1\<rparr>]"
    by (simp add: self_accepting_leaf_def hmr_eval)
  note t1 = propagateUpdate_dead_end[of example_env dep_accepting_parent 1 "[]" "[1]" 0 "[]",
      THEN conjunct1]
  note t2 = propagateUpdate_dead_end[of example_env dep_accepting_parent 1 "[]" "[1]" 0 "[]",
      THEN conjunct2, THEN conjunct1, rule_format, OF nd r i]
  note t3 = propagateUpdate_dead_end[of example_env self_accepting_leaf 0 "[]" "[0]" 0 "[]",
      THEN conjunct1]
  note t4 = propagateUpdate_dead_end[of example_env self_accepting_leaf 1 "[]" "[1]" 0 "[]",
      THEN conjunct2, THEN conjunct2, THEN conjunct2, THEN conjunct1, rule_format, OF sa]
  note t5 = propagateUpdate_dead_end[of example_env self_accepting_leaf 0 "[]" "[0]" 0 "[]",
      THEN conjunct2, THEN conjunct2, THEN conjunct2, THEN conjunct2, rule_format, OF q]
  from t1 nd have "\<not> (\<exists>n c. reaches dep_accepting_parent 1 [1] n c
      \<and> dead_end_at example_env dep_accepting_parent n c)" by simp
  moreover from t3 q have "\<exists>n c. reaches self_accepting_leaf 0 [0] n c
      \<and> dead_end_at example_env self_accepting_leaf n c" by simp
  moreover from t4 css have "propagateUpdate example_env self_accepting_leaf 1 [] [1]
     = (False, [\<lparr>boundary = 1, acceptedVia = 1\<rparr>])" by simp
  ultimately show ?thesis using p q t2 t5 by simp
qed

subsection \<open>The invalidation walk\<close>



definition same_links :: "heap \<Rightarrow> heap \<Rightarrow> bool" where
  "same_links h h' \<longleftrightarrow>
     length h' = length h \<and>
     (\<forall>r. url (node_at h' r) = url (node_at h r) \<and>
          type (node_at h' r) = type (node_at h r) \<and>
          importers (node_at h' r) = importers (node_at h r) \<and>
          importedModules (node_at h' r) = importedModules (node_at h r) \<and>
          acceptedHmrDeps (node_at h' r) = acceptedHmrDeps (node_at h r) \<and>
          isSelfAccepting (node_at h' r) = isSelfAccepting (node_at h r) \<and>
          (transformResult (node_at h r) = None \<longrightarrow> transformResult (node_at h' r) = None))"

lemma same_links_refl [simp]: "same_links h h"
  by (simp add: same_links_def)

lemma same_links_trans: "same_links h h1 \<Longrightarrow> same_links h1 h2 \<Longrightarrow> same_links h h2"
  by (simp add: same_links_def)

definition invalidated :: "nat \<Rightarrow> ModuleNode \<Rightarrow> ModuleNode" where
  "invalidated ts n = n\<lparr>lastHMRTimestamp := ts, transformResult := None, ssrModule := None,
     ssrTransformResult := None\<rparr>"

lemma same_links_invalidated: "same_links h (update_node m (invalidated ts) h)"
  by (auto simp: same_links_def node_at_update_node invalidated_def)

lemma invalidate_unfold:
  "invalidate m ts (h, seen) =
     (if m \<in> seen then (h, seen)
      else invalidate_importers m (importers (node_at h m)) ts
             (update_node m (invalidated ts) h, insert m seen))"
proof -
  have "importers (node_at (update_node m (invalidated ts) h) m) = importers (node_at h m)"
    by (auto simp: node_at_update_node invalidated_def)
  then show ?thesis
    by (subst invalidate.simps) (simp add: Let_def invalidated_def[abs_def])
qed

lemma invalidate_links:
  "same_links (fst st) (fst (invalidate m ts st))"
  "same_links (fst st) (fst (invalidate_importers m is ts st))"
proof (induct m ts st and m "is" ts st rule: invalidate_invalidate_importers.induct)
  case (1 m timestamp h seen)
  show ?case
  proof (cases "m \<in> seen")
    case True
    then show ?thesis by (simp add: invalidate.simps)
  next
    case False
    let ?h' = "update_node m (\<lambda>n. n\<lparr>lastHMRTimestamp := timestamp, transformResult := None,
        ssrModule := None, ssrTransformResult := None\<rparr>) h"
    have "same_links h ?h'"
      using same_links_invalidated[of h m timestamp] by (simp add: invalidated_def[abs_def])
    moreover have "same_links ?h' (fst (invalidate_importers m (importers (node_at ?h' m)) timestamp
        (?h', insert m seen)))"
      using 1[OF False refl refl] by simp
    ultimately show ?thesis using False
      by (simp add: invalidate.simps Let_def same_links_trans)
  qed
next
  case (2 m timestamp st)
  show ?case by (simp add: invalidate_importers.simps)
next
  case (3 m importer rest timestamp h seen)
  show ?case
  proof (cases "m \<notin> set (acceptedHmrDeps (node_at h importer))")
    case True
    from 3(1)[OF True] 3(2) True show ?thesis
      by (simp add: invalidate_importers.simps) (blast intro: same_links_trans)
  next
    case False
    with 3(2) show ?thesis by (simp add: invalidate_importers.simps)
  qed
qed

lemma invalidate_clears:
  assumes "m \<notin> seen"
  shows "transformResult (node_at (fst (invalidate m ts (h, seen))) m) = None"
proof -
  let ?h1 = "update_node m (invalidated ts) h"
  have "transformResult (node_at ?h1 m) = None"
  proof (cases "m < length h")
    case True
    then show ?thesis by (simp add: node_at_update_node invalidated_def)
  next
    case False
    then show ?thesis by (simp add: node_at_def blank_node_def)
  qed
  moreover have "same_links ?h1 (fst (invalidate_importers m (importers (node_at h m)) ts
      (?h1, insert m seen)))"
    using invalidate_links(2)[of "(?h1, insert m seen)"] by simp
  ultimately show ?thesis using assms
    by (simp add: invalidate_unfold same_links_def)
qed

subsection \<open>A change to a self-accepting leaf\<close>

lemma updateModules_single:
  assumes "invalidate m ts (h, {}) = (h1, seen1)"
    and "propagateUpdate env h1 m [] [m] = (False, bs)"
  shows "updateModules env f [m] ts h = (h1, UpdatePayload (map (to_update h1 ts) bs))"
  using assms by (simp add: updateModules_def)

lemma self_accepting_leaf_walks:
  assumes ab: "a \<noteq> b"
    and imp: "importers (node_at h b) = [a]"
    and sa: "isSelfAccepting (node_at h b)"
    and na: "b \<notin> set (acceptedHmrDeps (node_at h a))"
    and css: "\<not> isCSSRequest env (url (node_at h a))"
  shows "same_links h (fst (invalidate b ts (h, {})))"
    and "transformResult (node_at (fst (invalidate b ts (h, {}))) b) = None"
    and "transformResult (node_at (fst (invalidate b ts (h, {}))) a) = None"
    and "propagateUpdate env (fst (invalidate b ts (h, {}))) b [] [b]
           = (False, [\<lparr>boundary = b, acceptedVia = b\<rparr>])"
proof -
  let ?h1 = "fst (invalidate b ts (h, {}))"
  let ?hb = "update_node b (invalidated ts) h"
  show l: "same_links h ?h1" using invalidate_links(1)[of "(h, {})" b ts] by simp
  show "transformResult (node_at ?h1 b) = None" by (rule invalidate_clears) simp
  have acc: "b \<notin> set (acceptedHmrDeps (node_at ?hb a))"
    using na ab by (simp add: node_at_update_node)
  have "invalidate b ts (h, {}) = invalidate_importers b [a] ts (?hb, {b})"
    by (simp add: invalidate_unfold imp)
  also have "\<dots> = invalidate a ts (?hb, {b})"
    using acc by (simp add: invalidate_importers.simps)
  finally have "invalidate b ts (h, {}) = invalidate a ts (?hb, {b})" .
  moreover have "transformResult (node_at (fst (invalidate a ts (?hb, {b}))) a) = None"
    using ab by (intro invalidate_clears) simp
  ultimately show "transformResult (node_at ?h1 a) = None" by simp
  have sa1: "isSelfAccepting (node_at ?h1 b)" using l sa by (simp add: same_links_def)
  have imp1: "importers (node_at ?h1 b) = [a]" using l imp by (simp add: same_links_def)
  have css1: "\<not> isCSSRequest env (url (node_at ?h1 a))" using l css by (simp add: same_links_def)
  show "propagateUpdate env ?h1 b [] [b] = (False, [\<lparr>boundary = b, acceptedVia = b\<rparr>])"
    using sa1 css1
    by (subst propagateUpdate.simps) (simp add: imp1 propagate_css_importers.simps)
qed


text \<open>
  Claim C1 as stated fails in its last part: the invalidation walk goes from \<open>B\<close> to
  every importer that does not accept \<open>B\<close>, so it clears the cached transform result of
  \<open>A\<close> too. Here \<open>/A\<close> imports \<open>/B\<close>, \<open>/B\<close> accepts itself, \<open>/A\<close> does not accept \<open>/B\<close>,
  and after the change to \<open>/B\<close> the transform result of \<open>/A\<close> is gone.
\<close>

theorem self_accepting_leaf_counterexample:
  "importedModules (node_at self_accepting_leaf 0) = [1] \<and>
   isSelfAccepting (node_at self_accepting_leaf 1) \<and>
   1 \<notin> set (acceptedHmrDeps (node_at self_accepting_leaf 0)) \<and>
   transformResult (node_at self_accepting_leaf 0) = Some example_result \<and>
   transformResult (node_at (fst (updateModules example_env ''/B'' [1] 7 self_accepting_leaf)) 0)
     = None"
  by (simp add: self_accepting_leaf_def hmr_eval)


text \<open>
  Claim C1, amended. In a graph where \<open>A\<close> (not a CSS request) is the importer of \<open>B\<close>,
  \<open>B\<close> (of type js) accepts itself and \<open>A\<close> does not declare \<open>B\<close> in its accepted deps,
  a change to \<open>B\<close> sends one \<open>update\<close> payload with the single entry of type js-update
  whose path and acceptedPath are the url of \<open>B\<close>, and the invalidation walk clears the
  cached transform result of \<open>B\<close> and of \<open>A\<close>.
\<close>

theorem self_accepting_leaf_update:
  assumes "a \<noteq> b"
    and "importers (node_at h b) = [a]"
    and "isSelfAccepting (node_at h b)"
    and "b \<notin> set (acceptedHmrDeps (node_at h a))"
    and "\<not> isCSSRequest env (url (node_at h a))"
    and "type (node_at h b) = JS"
  shows "snd (updateModules env f [b] ts h)
           = UpdatePayload [\<lparr>updateType = js_update, timestamp = ts,
                             path = url (node_at h b), acceptedPath = url (node_at h b)\<rparr>] \<and>
         transformResult (node_at (fst (updateModules env f [b] ts h)) b) = None \<and>
         transformResult (node_at (fst (updateModules env f [b] ts h)) a) = None"
proof -
  obtain h1 seen1 where i: "invalidate b ts (h, {}) = (h1, seen1)"
    by (cases "invalidate b ts (h, {})")
  note w = self_accepting_leaf_walks[OF assms(1-5), of ts, unfolded i fst_conv]
  have u: "updateModules env f [b] ts h
      = (h1, UpdatePayload (map (to_update h1 ts) [\<lparr>boundary = b, acceptedVia = b\<rparr>]))"
    using i w(4) by (rule updateModules_single)
  have "to_update h1 ts \<lparr>boundary = b, acceptedVia = b\<rparr>
      = \<lparr>updateType = js_update, timestamp = ts,
         path = url (node_at h b), acceptedPath = url (node_at h b)\<rparr>"
    using w(1) assms(6) by (simp add: to_update_def same_links_def)
  with u w(2,3) show ?thesis by simp
qed


theorem self_accepting_leaf_update_witness:
  "(0::nat) \<noteq> 1 \<and>
   importers (node_at self_accepting_leaf 1) = [0] \<and>
   isSelfAccepting (node_at self_accepting_leaf 1) \<and>
   1 \<notin> set (acceptedHmrDeps (node_at self_accepting_leaf 0)) \<and>
   \<not> isCSSRequest example_env (url (node_at self_accepting_leaf 0)) \<and>
   type (node_at self_accepting_leaf 1) = JS \<and>
   snd (updateModules example_env ''/B'' [1] 7 self_accepting_leaf)
     = UpdatePayload [\<lparr>updateType = js_update, timestamp = 7, path = ''/B'', acceptedPath = ''/B''\<rparr>] \<and>
   transformResult (node_at (fst (updateModules example_env ''/B'' [1] 7 self_accepting_leaf)) 1) = None \<and>
   transformResult (node_at (fst (updateModules example_env ''/B'' [1] 7 self_accepting_leaf)) 0) = None"
proof -
  have h: "(0::nat) \<noteq> 1" "importers (node_at self_accepting_leaf 1) = [0]"
    "isSelfAccepting (node_at self_accepting_leaf 1)"
    "1 \<notin> set (acceptedHmrDeps (node_at self_accepting_leaf 0))"
    "\<not> isCSSRequest example_env (url (node_at self_accepting_leaf 0))"
    "type (node_at self_accepting_leaf 1) = JS"
    by (simp_all add: self_accepting_leaf_def node_at_def example_node_def new_ModuleNode_def
        endsWith_def)
  have u: "url (node_at self_accepting_leaf 1) = ''/B''"
    by (simp add: self_accepting_leaf_def node_at_def example_node_def new_ModuleNode_def)
  from self_accepting_leaf_update[OF h, of "''/B''" 7] h u show ?thesis by simp
qed


subsection \<open>A change to a dep that its importer accepts\<close>

lemma dep_accepting_parent_walks:
  assumes ab: "a \<noteq> b"
    and imp: "importers (node_at h b) = [a]"
    and sa: "\<not> isSelfAccepting (node_at h b)"
    and acc: "b \<in> set (acceptedHmrDeps (node_at h a))"
    and css: "isCSSRequest env (url (node_at h a)) \<longrightarrow> isCSSRequest env (url (node_at h b))"
  shows "invalidate b ts (h, {}) = (update_node b (invalidated ts) h, {b})"
    and "propagateUpdate env (update_node b (invalidated ts) h) b [] [b]
           = (False, [\<lparr>boundary = a, acceptedVia = b\<rparr>])"
proof -
  let ?hb = "update_node b (invalidated ts) h"
  have acc1: "b \<in> set (acceptedHmrDeps (node_at ?hb a))"
    using acc ab by (simp add: node_at_update_node)
  have "invalidate b ts (h, {}) = invalidate_importers b [a] ts (?hb, {b})"
    by (simp add: invalidate_unfold imp)
  also have "\<dots> = (?hb, {b})"
    using acc1 by (simp add: invalidate_importers.simps)
  finally show "invalidate b ts (h, {}) = (?hb, {b})" .
  have l: "same_links h ?hb" by (rule same_links_invalidated)
  have sa1: "\<not> isSelfAccepting (node_at ?hb b)" using l sa by (simp add: same_links_def)
  have imp1: "importers (node_at ?hb b) = [a]" using l imp by (simp add: same_links_def)
  have css1: "isCSSRequest env (url (node_at ?hb a)) \<longrightarrow> isCSSRequest env (url (node_at ?hb b))"
    using l css by (simp add: same_links_def)
  show "propagateUpdate env ?hb b [] [b] = (False, [\<lparr>boundary = a, acceptedVia = b\<rparr>])"
    using sa1 css1 acc1
    by (subst propagateUpdate.simps) (auto simp: imp1 propagate_importers.simps)
qed


text \<open>
  Claim C2 as stated fails in its last part: the invalidation walk stops at an importer
  that accepts the changed module. Here \<open>/A\<close> imports and accepts \<open>/B\<close>, and after the
  change to \<open>/B\<close> the node \<open>/A\<close> still has its transform result.
\<close>

theorem dep_accepting_parent_counterexample:
  "importedModules (node_at dep_accepting_parent 0) = [1] \<and>
   1 \<in> set (acceptedHmrDeps (node_at dep_accepting_parent 0)) \<and>
   \<not> isSelfAccepting (node_at dep_accepting_parent 1) \<and>
   transformResult (node_at (fst (updateModules example_env ''/B'' [1] 7 dep_accepting_parent)) 0)
     = Some example_result"
  by (simp add: dep_accepting_parent_def hmr_eval)


text \<open>
  Claim C2, amended. In a graph where \<open>A\<close> is the importer of \<open>B\<close>, \<open>A\<close> declares \<open>B\<close> in
  its accepted deps and \<open>B\<close> does not accept itself (and \<open>B\<close> is a CSS request if \<open>A\<close>
  is), a change to \<open>B\<close> sends one \<open>update\<close> payload with the single entry whose path is
  the url of \<open>A\<close> and whose acceptedPath is the url of \<open>B\<close>; the invalidation walk clears
  the cached transform result of \<open>B\<close> only and leaves the node \<open>A\<close> as it was.
\<close>

theorem dep_accepting_parent_update:
  assumes "a \<noteq> b"
    and "importers (node_at h b) = [a]"
    and "\<not> isSelfAccepting (node_at h b)"
    and "b \<in> set (acceptedHmrDeps (node_at h a))"
    and "isCSSRequest env (url (node_at h a)) \<longrightarrow> isCSSRequest env (url (node_at h b))"
  shows "snd (updateModules env f [b] ts h)
           = UpdatePayload [\<lparr>updateType = (case type (node_at h a) of JS \<Rightarrow> js_update
                                                                     | CSS \<Rightarrow> css_update),
                             timestamp = ts,
                             path = url (node_at h a), acceptedPath = url (node_at h b)\<rparr>] \<and>
         transformResult (node_at (fst (updateModules env f [b] ts h)) b) = None \<and>
         node_at (fst (updateModules env f [b] ts h)) a = node_at h a"
proof -
  let ?hb = "update_node b (invalidated ts) h"
  note w = dep_accepting_parent_walks[OF assms, of ts]
  have u: "updateModules env f [b] ts h
      = (?hb, UpdatePayload (map (to_update ?hb ts) [\<lparr>boundary = a, acceptedVia = b\<rparr>]))"
    using w by (rule updateModules_single)
  have l: "same_links h ?hb" by (rule same_links_invalidated)
  have "to_update ?hb ts \<lparr>boundary = a, acceptedVia = b\<rparr>
      = \<lparr>updateType = (case type (node_at h a) of JS \<Rightarrow> js_update | CSS \<Rightarrow> css_update),
         timestamp = ts, path = url (node_at h a), acceptedPath = url (node_at h b)\<rparr>"
    using l by (simp add: to_update_def same_links_def)
  moreover have "transformResult (node_at ?hb b) = None"
    using invalidate_clears[of b "{}" ts h] w(1) by simp
  moreover have "node_at ?hb a = node_at h a" using assms(1) by (simp add: node_at_update_node)
  ultimately show ?thesis using u by simp
qed

theorem dep_accepting_parent_update_witness:
  "(0::nat) \<noteq> 1 \<and>
   importers (node_at dep_accepting_parent 1) = [0] \<and>
   \<not> isSelfAccepting (node_at dep_accepting_parent 1) \<and>
   1 \<in> set (acceptedHmrDeps (node_at dep_accepting_parent 0)) \<and>
   \<not> isCSSRequest example_env (url (node_at dep_accepting_parent 0)) \<and>
   snd (updateModules example_env ''/B'' [1] 7 dep_accepting_parent)
     = UpdatePayload [\<lparr>updateType = js_update, timestamp = 7, path = ''/A'', acceptedPath = ''/B''\<rparr>] \<and>
   transformResult (node_at (fst (updateModules example_env ''/B'' [1] 7 dep_accepting_parent)) 1) = None \<and>
   node_at (fst (updateModules example_env ''/B'' [1] 7 dep_accepting_parent)) 0
     = node_at dep_accepting_parent 0"
proof -
  have h: "(0::nat) \<noteq> 1" "importers (node_at dep_accepting_parent 1) = [0]"
    "\<not> isSelfAccepting (node_at dep_accepting_parent 1)"
    "1 \<in> set (acceptedHmrDeps (node_at dep_accepting_parent 0))"
    by (simp_all add: dep_accepting_parent_def node_at_def example_node_def new_ModuleNode_def)
  have c: "\<not> isCSSRequest example_env (url (node_at dep_accepting_parent 0))"
    by (simp add: dep_accepting_parent_def node_at_def example_node_def new_ModuleNode_def
        endsWith_def)
  then have c': "isCSSRequest example_env (url (node_at dep_accepting_parent 0))
      \<longrightarrow> isCSSRequest example_env (url (node_at dep_accepting_parent 1))" by simp
  have u: "url (node_at dep_accepting_parent 1) = ''/B''" "url (node_at dep_accepting_parent 0) = ''/A''"
    "type (node_at dep_accepting_parent 0) = JS"
    by (simp_all add: dep_accepting_parent_def node_at_def example_node_def new_ModuleNode_def
        endsWith_def)
  from dep_accepting_parent_update[OF h c', of "''/B''" 7] h c u show ?thesis by simp
qed



section \<open>The transform pipeline (server/transformRequest.ts)\<close>

subsection \<open>Request deduplication: \<open>transformRequest\<close>\<close>

text \<open>
  \<open>options.ssr\<close> and \<open>options.html\<close> are optional booleans; the conditional
  expressions of the source test their truthiness.
\<close>

record TransformOptions =
  ssr :: "bool option"
  html :: "bool option"

definition truthy :: "bool option \<Rightarrow> bool" where
  "truthy v = (v = Some True)"

definition cacheKey :: "TransformOptions \<Rightarrow> string \<Rightarrow> string" where
  "cacheKey options u =
     (if truthy (ssr options) then ''ssr:'' else if truthy (html options) then ''html:'' else [])
     @ u"


text \<open>
  \<open>transformRequest\<close> is synchronous: it looks the key up, and when there is no entry
  it starts \<open>doTransform\<close>, stores the promise and registers \<open>done\<close> for both outcomes
  (\<open>request.then(done, done)\<close>). A promise is the index of the \<open>doTransform\<close> call it
  belongs to in the list of all calls started so far. \<open>reactions\<close> holds, for every
  promise, the key that its \<open>done\<close> closure deletes. The computation itself runs
  between the events of this state machine; \<open>settle\<close> is the event that a promise is
  fulfilled or rejected and its reactions run.
\<close>

record PendingTransform =
  request_url :: string
  request_options :: TransformOptions

record Server =
  pendingRequests :: "(string \<times> nat) list"
  promises :: "PendingTransform list"
  reactions :: "(nat \<times> string) list"

definition done' :: "string \<Rightarrow> Server \<Rightarrow> Server" where
  "done' key srv = srv\<lparr>pendingRequests := AList.delete key (pendingRequests srv)\<rparr>"

definition transformRequest :: "string \<Rightarrow> TransformOptions \<Rightarrow> Server \<Rightarrow> nat \<times> Server" where
  "transformRequest u options srv =
     (let key = cacheKey options u in
      case map_of (pendingRequests srv) key of
        Some request \<Rightarrow> (request, srv)
      | None \<Rightarrow>
          (let request = length (promises srv) in
           (request,
            srv\<lparr>promises := promises srv @ [\<lparr>request_url = u, request_options = options\<rparr>],
                pendingRequests := AList.update key request (pendingRequests srv),
                reactions := reactions srv @ [(request, key)]\<rparr>)))"

datatype 'a Settlement = Fulfilled 'a | Rejected string

definition settle :: "nat \<Rightarrow> 'a Settlement \<Rightarrow> Server \<Rightarrow> Server" where
  "settle request outcome srv =
     fold (\<lambda>(r, key) s. case outcome of Fulfilled v \<Rightarrow> done' key s | Rejected e \<Rightarrow> done' key s)
       (filter (\<lambda>(r, key). r = request) (reactions srv))
       (srv\<lparr>reactions := filter (\<lambda>(r, key). r \<noteq> request) (reactions srv)\<rparr>)"

definition new_Server :: Server where
  "new_Server = \<lparr>pendingRequests = [], promises = [], reactions = []\<rparr>"

definition pending_ok :: "Server \<Rightarrow> bool" where
  "pending_ok srv \<longleftrightarrow>
     (\<forall>r key. (r, key) \<in> set (reactions srv) \<longleftrightarrow> map_of (pendingRequests srv) key = Some r)"

text \<open>
  The events of the server: a call of \<open>transformRequest\<close> and the settlement of a
  promise. \<open>run_events\<close> runs a sequence of them; \<open>settles request e\<close> says that \<open>e\<close> is
  the settlement of \<open>request\<close>.
\<close>

datatype 'a ServerEvent = Request string TransformOptions | Settles nat "'a Settlement"

fun server_step :: "'a ServerEvent \<Rightarrow> Server \<Rightarrow> Server" where
  "server_step (Request u options) srv = snd (transformRequest u options srv)"
| "server_step (Settles request outcome) srv = settle request outcome srv"

definition run_events :: "'a ServerEvent list \<Rightarrow> Server \<Rightarrow> Server" where
  "run_events events srv = fold server_step events srv"

fun settles :: "nat \<Rightarrow> 'a ServerEvent \<Rightarrow> bool" where
  "settles request (Settles r outcome) = (r = request)"
| "settles request (Request u options) = False"

lemma settle_reaction_case:
  "(case outcome of Fulfilled v \<Rightarrow> done' key s | Rejected e \<Rightarrow> done' key s) = done' key s"
  by (cases outcome) simp_all

lemma fold_done:
  "map_of (pendingRequests (fold (\<lambda>(r, key) s. done' key s) xs s0)) k
     = (if k \<in> snd ` set xs then None else map_of (pendingRequests s0) k)"
  "reactions (fold (\<lambda>(r, key) s. done' key s) xs s0) = reactions s0"
  "promises (fold (\<lambda>(r, key) s. done' key s) xs s0) = promises s0"
  by (induction xs arbitrary: s0) (auto simp: done'_def delete_conv')

lemma settle_unfold:
  "map_of (pendingRequests (settle request outcome srv)) k
     = (if (request, k) \<in> set (reactions srv) then None else map_of (pendingRequests srv) k)"
  "reactions (settle request outcome srv) = filter (\<lambda>(r, key). r \<noteq> request) (reactions srv)"
  "promises (settle request outcome srv) = promises srv"
  unfolding settle_def settle_reaction_case
  by (auto simp: fold_done image_iff)

lemma pending_ok_new: "pending_ok new_Server"
  by (simp add: pending_ok_def new_Server_def)

lemma pending_ok_settle:
  assumes "pending_ok srv"
  shows "pending_ok (settle request outcome srv)"
  unfolding pending_ok_def
proof (intro allI)
  fix r key
  from assms have a: "\<And>r key. (r, key) \<in> set (reactions srv) \<longleftrightarrow> map_of (pendingRequests srv) key = Some r"
    by (simp add: pending_ok_def)
  show "(r, key) \<in> set (reactions (settle request outcome srv))
      \<longleftrightarrow> map_of (pendingRequests (settle request outcome srv)) key = Some r"
    by (auto simp: settle_unfold a)
qed

lemma pending_ok_transformRequest:
  assumes "pending_ok srv"
  shows "pending_ok (snd (transformRequest u options srv))"
proof (cases "map_of (pendingRequests srv) (cacheKey options u)")
  case None
  from assms have a: "\<And>r key. (r, key) \<in> set (reactions srv) \<longleftrightarrow> map_of (pendingRequests srv) key = Some r"
    by (simp add: pending_ok_def)
  show ?thesis using None
    by (auto simp: pending_ok_def transformRequest_def Let_def update_conv' a)
next
  case (Some r)
  with assms show ?thesis by (simp add: transformRequest_def)
qed


lemma transformRequest_other_key:
  "key \<noteq> cacheKey options u \<Longrightarrow>
     map_of (pendingRequests (snd (transformRequest u options srv))) key
       = map_of (pendingRequests srv) key"
  by (simp add: transformRequest_def Let_def update_conv' split: option.splits)

lemma transformRequest_promises:
  "\<exists>new. promises (snd (transformRequest u options srv)) = promises srv @ new \<and>
         (\<forall>p\<in>set new. request_url p = u \<and> request_options p = options) \<and>
         (map_of (pendingRequests srv) (cacheKey options u) \<noteq> None \<longrightarrow> new = [])"
  by (simp add: transformRequest_def Let_def split: option.splits)

lemma settle_other:
  assumes "pending_ok srv" "map_of (pendingRequests srv) key = Some request" "request' \<noteq> request"
  shows "map_of (pendingRequests (settle request' outcome srv)) key = Some request"
proof -
  from assms have "(request', key) \<notin> set (reactions srv)" by (auto simp: pending_ok_def)
  with assms show ?thesis by (simp add: settle_unfold)
qed

lemma run_events_in_flight:
  assumes "pending_ok srv" "map_of (pendingRequests srv) key = Some request"
    "\<forall>e\<in>set events. \<not> settles request e"
  shows "pending_ok (run_events events srv) \<and>
         map_of (pendingRequests (run_events events srv)) key = Some request \<and>
         (\<exists>new. promises (run_events events srv) = promises srv @ new \<and>
                (\<forall>p\<in>set new. cacheKey (request_options p) (request_url p) \<noteq> key))"
  using assms unfolding run_events_def
proof (induction events arbitrary: srv)
  case Nil
  then show ?case by simp
next
  case (Cons e events)
  let ?s = "server_step e srv"
  have ok: "pending_ok ?s"
    using Cons.prems(1) by (cases e) (simp_all add: pending_ok_transformRequest pending_ok_settle)
  have entry: "map_of (pendingRequests ?s) key = Some request"
  proof (cases e)
    case (Request u options)
    show ?thesis
    proof (cases "key = cacheKey options u")
      case True
      with Cons.prems(2) Request show ?thesis by (simp add: transformRequest_def)
    next
      case False
      with Cons.prems(2) Request show ?thesis by (simp add: transformRequest_other_key)
    qed
  next
    case (Settles r outcome)
    with Cons.prems(3) have "r \<noteq> request" by simp
    with Cons.prems(1,2) Settles show ?thesis by (simp add: settle_other)
  qed
  have started: "\<exists>new. promises ?s = promises srv @ new \<and>
                (\<forall>p\<in>set new. cacheKey (request_options p) (request_url p) \<noteq> key)"
  proof (cases e)
    case (Request u options)
    from transformRequest_promises[of u options srv] obtain new where
      n: "promises (snd (transformRequest u options srv)) = promises srv @ new"
        "\<forall>p\<in>set new. request_url p = u \<and> request_options p = options"
        "map_of (pendingRequests srv) (cacheKey options u) \<noteq> None \<longrightarrow> new = []"
      by blast
    have "\<forall>p\<in>set new. cacheKey (request_options p) (request_url p) \<noteq> key"
    proof (cases "key = cacheKey options u")
      case True
      with Cons.prems(2) n(3) show ?thesis by simp
    next
      case False
      with n(2) show ?thesis by auto
    qed
    with n(1) Request show ?thesis by auto
  next
    case (Settles r outcome)
    then show ?thesis by (simp add: settle_unfold)
  qed
  from Cons.prems(3) have "\<forall>e\<in>set events. \<not> settles request e" by simp
  from Cons.IH[OF ok entry this] obtain new2 where
    ih: "pending_ok (fold server_step events ?s)"
      "map_of (pendingRequests (fold server_step events ?s)) key = Some request"
      "promises (fold server_step events ?s) = promises ?s @ new2"
      "\<forall>p\<in>set new2. cacheKey (request_options p) (request_url p) \<noteq> key"
    by blast
  from started obtain new1 where
    s: "promises ?s = promises srv @ new1"
       "\<forall>p\<in>set new1. cacheKey (request_options p) (request_url p) \<noteq> key"
    by blast
  from ih(3,4) s have "promises (fold server_step events ?s) = promises srv @ (new1 @ new2) \<and>
     (\<forall>p\<in>set (new1 @ new2). cacheKey (request_options p) (request_url p) \<noteq> key)"
    by auto
  then have "\<exists>new. promises (fold server_step events ?s) = promises srv @ new \<and>
     (\<forall>p\<in>set new. cacheKey (request_options p) (request_url p) \<noteq> key)"
    by blast
  with ih(1,2) show ?case by simp
qed


text \<open>
  Claim C4. The cache key is the url, prefixed with \<open>ssr:\<close> when \<open>options.ssr\<close> is set,
  else with \<open>html:\<close> when \<open>options.html\<close> is set. While the map has an entry for the
  key, \<open>transformRequest\<close> returns the promise stored there and starts nothing; when
  it has none, one computation is started and stored under the key. A call for
  another key leaves the entry as it is. The entry stays while other promises settle
  and is removed when its own promise settles, fulfilled or rejected. Hence, over any
  sequence of calls and settlements in which the promise of the key does not settle,
  the entry is kept, no computation with this key is started, and a call with the key
  at the end returns the same promise. (\<open>pending_ok\<close>, which every state reached from
  the empty server satisfies, says that the entries of the map and the registered
  reactions correspond.)
\<close>

theorem transformRequest_deduplicates:
  "cacheKey options u
     = (if truthy (ssr options) then ''ssr:'' @ u
        else if truthy (html options) then ''html:'' @ u else u) \<and>
   (map_of (pendingRequests srv) (cacheKey options u) = Some request \<longrightarrow>
      transformRequest u options srv = (request, srv)) \<and>
   (map_of (pendingRequests srv) (cacheKey options u) = None \<longrightarrow>
      fst (transformRequest u options srv) = length (promises srv) \<and>
      promises (snd (transformRequest u options srv))
        = promises srv @ [\<lparr>request_url = u, request_options = options\<rparr>] \<and>
      map_of (pendingRequests (snd (transformRequest u options srv))) (cacheKey options u)
        = Some (length (promises srv))) \<and>
   (pending_ok srv \<longrightarrow>
      pending_ok (snd (transformRequest u options srv)) \<and> pending_ok (settle request' outcome srv)) \<and>
   (pending_ok srv \<and> map_of (pendingRequests srv) key = Some request \<longrightarrow>
      map_of (pendingRequests (settle request outcome srv)) key = None \<and>
      (request' \<noteq> request \<longrightarrow>
         map_of (pendingRequests (settle request' outcome srv)) key = Some request)) \<and>
   (key \<noteq> cacheKey options u \<longrightarrow>
      map_of (pendingRequests (snd (transformRequest u options srv))) key
        = map_of (pendingRequests srv) key) \<and>
   (pending_ok srv \<and> map_of (pendingRequests srv) key = Some request \<and>
    (\<forall>e\<in>set events. \<not> settles request e) \<longrightarrow>
      map_of (pendingRequests (run_events events srv)) key = Some request \<and>
      (\<exists>new. promises (run_events events srv) = promises srv @ new \<and>
             (\<forall>p\<in>set new. cacheKey (request_options p) (request_url p) \<noteq> key)) \<and>
      (cacheKey options u = key \<longrightarrow>
         transformRequest u options (run_events events srv)
           = (request, run_events events srv)))"
proof (intro conjI impI)
  show "cacheKey options u
     = (if truthy (ssr options) then ''ssr:'' @ u
        else if truthy (html options) then ''html:'' @ u else u)"
    by (simp add: cacheKey_def)
next
  assume "map_of (pendingRequests srv) (cacheKey options u) = Some request"
  then show "transformRequest u options srv = (request, srv)"
    by (simp add: transformRequest_def)
next
  assume n: "map_of (pendingRequests srv) (cacheKey options u) = None"
  then show "fst (transformRequest u options srv) = length (promises srv)"
    "promises (snd (transformRequest u options srv))
        = promises srv @ [\<lparr>request_url = u, request_options = options\<rparr>]"
    "map_of (pendingRequests (snd (transformRequest u options srv))) (cacheKey options u)
        = Some (length (promises srv))"
    by (simp_all add: transformRequest_def Let_def update_conv')
next
  assume "pending_ok srv"
  then show "pending_ok (snd (transformRequest u options srv))"
    "pending_ok (settle request' outcome srv)"
    by (rule pending_ok_transformRequest, rule pending_ok_settle)
next
  assume a: "pending_ok srv \<and> map_of (pendingRequests srv) key = Some request"
  then have r: "(request, key) \<in> set (reactions srv)" by (simp add: pending_ok_def)
  then show "map_of (pendingRequests (settle request outcome srv)) key = None"
    by (simp add: settle_unfold)
  show "map_of (pendingRequests (settle request' outcome srv)) key = Some request"
    if "request' \<noteq> request"
    using a that by (simp add: settle_other)
next
  assume "key \<noteq> cacheKey options u"
  then show "map_of (pendingRequests (snd (transformRequest u options srv))) key
        = map_of (pendingRequests srv) key"
    by (rule transformRequest_other_key)
next
  assume a: "pending_ok srv \<and> map_of (pendingRequests srv) key = Some request \<and>
    (\<forall>e\<in>set events. \<not> settles request e)"
  then have f: "pending_ok (run_events events srv) \<and>
         map_of (pendingRequests (run_events events srv)) key = Some request \<and>
         (\<exists>new. promises (run_events events srv) = promises srv @ new \<and>
                (\<forall>p\<in>set new. cacheKey (request_options p) (request_url p) \<noteq> key))"
    by (intro run_events_in_flight) simp_all
  from f show "map_of (pendingRequests (run_events events srv)) key = Some request" by simp
  from f show "\<exists>new. promises (run_events events srv) = promises srv @ new \<and>
             (\<forall>p\<in>set new. cacheKey (request_options p) (request_url p) \<noteq> key)" by simp
  show "transformRequest u options (run_events events srv) = (request, run_events events srv)"
    if "cacheKey options u = key"
    using f that by (simp add: transformRequest_def)
qed

theorem transformRequest_deduplicates_witness:
  "cacheKey \<lparr>ssr = None, html = Some True\<rparr> ''/a.js'' = ''html:/a.js'' \<and>
   transformRequest ''/a.js'' \<lparr>ssr = None, html = Some True\<rparr> new_Server
     = (0, \<lparr>pendingRequests = [(''html:/a.js'', 0)],
            promises = [\<lparr>request_url = ''/a.js'',
                          request_options = \<lparr>ssr = None, html = Some True\<rparr>\<rparr>],
            reactions = [(0, ''html:/a.js'')]\<rparr>) \<and>
   transformRequest ''/a.js'' \<lparr>ssr = None, html = Some True\<rparr>
       (snd (transformRequest ''/a.js'' \<lparr>ssr = None, html = Some True\<rparr> new_Server))
     = transformRequest ''/a.js'' \<lparr>ssr = None, html = Some True\<rparr> new_Server \<and>
   map_of (pendingRequests
       (settle 0 (Fulfilled ())
          (snd (transformRequest ''/a.js'' \<lparr>ssr = None, html = Some True\<rparr> new_Server))))
     ''html:/a.js'' = None \<and>
   map_of (pendingRequests
       (settle 0 (Rejected ''failed'' :: unit Settlement)
          (snd (transformRequest ''/a.js'' \<lparr>ssr = None, html = Some True\<rparr> new_Server))))
     ''html:/a.js'' = None \<and>
   map_of (pendingRequests
       (snd (transformRequest ''/b.js'' \<lparr>ssr = None, html = None\<rparr>
          (snd (transformRequest ''/a.js'' \<lparr>ssr = None, html = Some True\<rparr> new_Server)))))
     ''html:/a.js'' = Some 0 \<and>
   transformRequest ''/a.js'' \<lparr>ssr = None, html = Some True\<rparr>
       (run_events
          [Request ''/b.js'' \<lparr>ssr = None, html = None\<rparr>,
           Request ''/a.js'' \<lparr>ssr = None, html = Some True\<rparr>,
           Settles 1 (Fulfilled ())]
          (snd (transformRequest ''/a.js'' \<lparr>ssr = None, html = Some True\<rparr> new_Server)))
     = (0, \<lparr>pendingRequests = [(''html:/a.js'', 0)],
            promises = [\<lparr>request_url = ''/a.js'',
                          request_options = \<lparr>ssr = None, html = Some True\<rparr>\<rparr>,
                        \<lparr>request_url = ''/b.js'',
                          request_options = \<lparr>ssr = None, html = None\<rparr>\<rparr>],
            reactions = [(0, ''html:/a.js'')]\<rparr>)"
proof -
  let ?o = "\<lparr>ssr = None, html = Some True\<rparr>"
  let ?p = "\<lparr>ssr = None, html = None\<rparr>"
  let ?s1 = "\<lparr>pendingRequests = [(''html:/a.js'', 0)],
            promises = [\<lparr>request_url = ''/a.js'', request_options = ?o\<rparr>],
            reactions = [(0, ''html:/a.js'')]\<rparr>"
  let ?events = "[Request ''/b.js'' ?p, Request ''/a.js'' ?o, Settles 1 (Fulfilled ())]
                   :: unit ServerEvent list"
  let ?s2 = "\<lparr>pendingRequests = [(''html:/a.js'', 0)],
            promises = [\<lparr>request_url = ''/a.js'', request_options = ?o\<rparr>,
                        \<lparr>request_url = ''/b.js'', request_options = ?p\<rparr>],
            reactions = [(0, ''html:/a.js'')]\<rparr>"
  have k: "cacheKey ?o ''/a.js'' = ''html:/a.js''" by (simp add: cacheKey_def truthy_def)
  have kb: "cacheKey ?p ''/b.js'' = ''/b.js''" by (simp add: cacheKey_def truthy_def)
  have first: "transformRequest ''/a.js'' ?o new_Server = (0, ?s1)"
    by (simp add: transformRequest_def k new_Server_def Let_def)
  have ok: "pending_ok ?s1"
    using transformRequest_deduplicates[of ?o "''/a.js''" new_Server 0 0 "Fulfilled ()" "[]",
        THEN conjunct2, THEN conjunct2, THEN conjunct2, THEN conjunct1] pending_ok_new
    by (simp add: first)
  have m: "map_of (pendingRequests ?s1) (cacheKey ?o ''/a.js'') = Some 0" by (simp add: k)
  have m': "map_of (pendingRequests ?s1) ''html:/a.js'' = Some 0" by simp
  have again: "transformRequest ''/a.js'' ?o ?s1 = (0, ?s1)"
    using transformRequest_deduplicates[of ?o "''/a.js''" ?s1 0 0 "Fulfilled ()" "[]",
        THEN conjunct2, THEN conjunct1] m by blast
  have gone: "map_of (pendingRequests (settle 0 outcome ?s1)) ''html:/a.js'' = None"
    for outcome :: "unit Settlement"
    using transformRequest_deduplicates[of ?o "''/a.js''" ?s1 0 0 outcome "''html:/a.js''",
        THEN conjunct2, THEN conjunct2, THEN conjunct2, THEN conjunct2, THEN conjunct1] ok m'
    by blast
  have other: "map_of (pendingRequests (snd (transformRequest ''/b.js'' ?p ?s1))) ''html:/a.js''
      = Some 0"
    using transformRequest_deduplicates[of ?p "''/b.js''" ?s1 0 0 "Fulfilled ()" "''html:/a.js''",
        THEN conjunct2, THEN conjunct2, THEN conjunct2, THEN conjunct2, THEN conjunct2,
        THEN conjunct1] kb
    by simp
  have quiet: "\<forall>e\<in>set ?events. \<not> settles 0 e" by simp
  have run: "run_events ?events ?s1 = ?s2"
    by (simp add: run_events_def transformRequest_def settle_def done'_def k kb Let_def)
  have later: "transformRequest ''/a.js'' ?o (run_events ?events ?s1)
      = (0, run_events ?events ?s1)"
    using transformRequest_deduplicates[of ?o "''/a.js''" ?s1 0 0 "Fulfilled ()" "''html:/a.js''"
        ?events,
        THEN conjunct2, THEN conjunct2, THEN conjunct2, THEN conjunct2, THEN conjunct2,
        THEN conjunct2] ok m' quiet k
    by blast
  from k first again gone[of "Fulfilled ()"] gone[of "Rejected ''failed''"] other later run
  show ?thesis by simp
qed

subsection \<open>\<open>doTransform\<close>\<close>

text \<open>
  The plugin container, the file system, the file-serving policy, \<open>checkPublicFile\<close>,
  the source-map helpers, \<open>ssrTransform\<close> and \<open>getEtag\<close> are parameters. A \<open>load\<close> or
  \<open>transform\<close> hook may throw, and \<open>fs.readFile\<close> may fail with \<open>ENOENT\<close> or with
  another error; the other helpers are taken to return normally (where the source
  catches their failure and goes on with \<open>map = null\<close>, the parameter returns \<open>None\<close>).
  The result is the value the promise settles with, \<open>Inl\<close> for a rejection, and the
  module graph as the call leaves it. Logging and the registration of the file with
  the watcher are left out.
\<close>

datatype LoadResult = LoadNull | LoadCode string | LoadObject string "MapValue option"
  | LoadThrows string

datatype ReadResult = ReadOk string | ReadENOENT | ReadFails string

datatype TransformHookResult = TransformNull | TransformObject "string option" "MapValue option"
  | TransformThrows string

datatype TransformError =
    PublicFileError string string
  | FsError string
  | PluginError string

record TransformEnv =
  graphEnv :: GraphEnv
  container_resolveId :: "string \<Rightarrow> bool \<Rightarrow> PartialResolvedId option"
  container_load :: "string \<Rightarrow> bool \<Rightarrow> LoadResult"
  container_transform :: "string \<Rightarrow> string \<Rightarrow> MapValue option \<Rightarrow> bool \<Rightarrow> TransformHookResult"
  isFileServingAllowed :: "string \<Rightarrow> bool"
  readFile :: "string \<Rightarrow> ReadResult"
  sourceMapOf :: "string \<Rightarrow> string \<Rightarrow> MapValue option"
  checkPublicFile :: "string \<Rightarrow> bool"
  parseMap :: "string \<Rightarrow> SourceMap"
  injectSourcesContent :: "SourceMap \<Rightarrow> string \<Rightarrow> SourceMap"
  ssrTransform :: "string \<Rightarrow> MapValue option \<Rightarrow> string \<Rightarrow> TransformResult option"
  getEtag :: "string \<Rightarrow> string"

definition cached_result :: "TransformEnv \<Rightarrow> ModuleGraph \<Rightarrow> string \<Rightarrow> bool \<Rightarrow> TransformResult option" where
  "cached_result env g u isSsr =
     (case getModuleByUrl (graphEnv env) g u isSsr of
        None \<Rightarrow> None
      | Some m \<Rightarrow> (if isSsr then ssrTransformResult (node_at (nodes g) m)
                   else transformResult (node_at (nodes g) m)))"

definition request_id :: "TransformEnv \<Rightarrow> string \<Rightarrow> bool \<Rightarrow> string" where
  "request_id env u isSsr =
     (case container_resolveId env u isSsr of
        Some r \<Rightarrow> if resolved_id r \<noteq> [] then resolved_id r else u
      | None \<Rightarrow> u)"

definition fs_fallback :: "TransformEnv \<Rightarrow> TransformOptions \<Rightarrow> string \<Rightarrow> TransformError + string option" where
  "fs_fallback env options f =
     (if truthy (ssr options) \<or> isFileServingAllowed env f then
        (case readFile env f of
           ReadOk c \<Rightarrow> Inr (Some c)
         | ReadENOENT \<Rightarrow> Inr None
         | ReadFails e \<Rightarrow> Inl (FsError e))
      else Inr None)"

definition finish_transform ::
  "TransformEnv \<Rightarrow> string \<Rightarrow> bool \<Rightarrow> string \<Rightarrow> string \<Rightarrow> MapValue option \<Rightarrow> ModuleGraph
     \<Rightarrow> (TransformError + TransformResult option) \<times> ModuleGraph" where
  "finish_transform env u isSsr i code0 map0 g =
     (case ensureEntryFromUrl (graphEnv env) u isSsr g of (m, g1) \<Rightarrow>
        (case container_transform env code0 i map0 isSsr of
           TransformThrows e \<Rightarrow> (Inl (PluginError e), g1)
         | hookResult \<Rightarrow>
             (let (code1, map1) =
                    (case hookResult of
                       TransformObject (Some c) mp \<Rightarrow> (c, mp)
                     | _ \<Rightarrow> (code0, map0));
                  modFile = (case file' (node_at (nodes g1) m) of Some f \<Rightarrow> f | None \<Rightarrow> []);
                  map2 =
                    (case map1 of
                       None \<Rightarrow> None
                     | Some mv \<Rightarrow>
                         if mv = MapText [] \<or> modFile = [] then Some mv
                         else
                           (let parsed = (case mv of MapText t \<Rightarrow> parseMap env t
                                                   | MapObject sm \<Rightarrow> sm)
                            in Some (MapObject
                                 (if mappings parsed \<noteq> [] \<and> sourcesContent parsed = None
                                  then injectSourcesContent env parsed modFile else parsed))))
              in if isSsr then
                   (let r = ssrTransform env code1 map2 u in
                    (Inr r, g1\<lparr>nodes := update_node m (\<lambda>n. n\<lparr>ssrTransformResult := r\<rparr>) (nodes g1)\<rparr>))
                 else
                   (let r = \<lparr>code = code1, smap = map2, etag = Some (getEtag env code1),
                             deps = None, dynamicDeps = None\<rparr> in
                    (Inr (Some r),
                     g1\<lparr>nodes := update_node m (\<lambda>n. n\<lparr>transformResult := Some r\<rparr>) (nodes g1)\<rparr>)))))"

definition doTransform ::
  "TransformEnv \<Rightarrow> string \<Rightarrow> TransformOptions \<Rightarrow> ModuleGraph
     \<Rightarrow> (TransformError + TransformResult option) \<times> ModuleGraph" where
  "doTransform env url0 options g =
     (let u = removeTimestampQuery (graphEnv env) url0;
          isSsr = truthy (ssr options)
      in case cached_result env g u isSsr of
           Some cached \<Rightarrow> (Inr (Some cached), g)
         | None \<Rightarrow>
             (let i = request_id env u isSsr;
                  f = cleanUrl (graphEnv env) i
              in case container_load env i isSsr of
                   LoadThrows e \<Rightarrow> (Inl (PluginError e), g)
                 | LoadCode c \<Rightarrow> finish_transform env u isSsr i c None g
                 | LoadObject c mp \<Rightarrow> finish_transform env u isSsr i c mp g
                 | LoadNull \<Rightarrow>
                     if truthy (html options) \<and> \<not> endsWith i ''.html'' then (Inr None, g)
                     else
                       (case fs_fallback env options f of
                          Inl e \<Rightarrow> (Inl e, g)
                        | Inr None \<Rightarrow>
                            if checkPublicFile env u then (Inl (PublicFileError u i), g)
                            else (Inr None, g)
                        | Inr (Some c) \<Rightarrow>
                            finish_transform env u isSsr i c
                              (if c \<noteq> [] then sourceMapOf env c f else None) g)))"



subsection \<open>A missing file\<close>

definition example_transform_env :: TransformEnv where
  "example_transform_env =
     \<lparr>graphEnv = example_env,
      container_resolveId = (\<lambda>u isSsr. None),
      container_load = (\<lambda>i isSsr. LoadNull),
      container_transform = (\<lambda>c i mp isSsr. TransformNull),
      isFileServingAllowed = (\<lambda>f. True),
      readFile = (\<lambda>f. ReadENOENT),
      sourceMapOf = (\<lambda>c f. None),
      checkPublicFile = (\<lambda>u. u = ''/logo.svg''),
      parseMap = (\<lambda>t. \<lparr>mappings = [], sourcesContent = None\<rparr>),
      injectSourcesContent = (\<lambda>m f. m),
      ssrTransform = (\<lambda>c mp u. None),
      getEtag = (\<lambda>c. ''W/'' @ c)\<rparr>"

lemma example_transform_facts [simp]:
  "graphEnv example_transform_env = example_env"
  "container_resolveId example_transform_env u isSsr = None"
  "container_load example_transform_env i isSsr = LoadNull"
  "isFileServingAllowed example_transform_env f"
  "readFile example_transform_env f = ReadENOENT"
  "checkPublicFile example_transform_env u \<longleftrightarrow> u = ''/logo.svg''"
  by (simp_all add: example_transform_env_def)

lemma example_removeTimestampQuery [simp]: "removeTimestampQuery example_env u = u"
  by (simp add: example_env_def)

lemma finish_transform_no_public_error:
  "fst (finish_transform env u isSsr i c mp g) \<noteq> Inl (PublicFileError u' i')"
  by (auto simp: finish_transform_def Let_def
      split: prod.splits TransformHookResult.splits option.splits)


text \<open>
  Claim C8 as stated fails: for an html request whose resolved id does not end in
  \<open>.html\<close>, a \<open>null\<close> load result makes \<open>doTransform\<close> return \<open>null\<close> before the file
  system and the public directory are consulted. Here \<open>/logo.svg\<close> lies in the public
  directory, nothing loads it, and the html request for it returns \<open>null\<close>.
\<close>

theorem doTransform_missing_file_counterexample:
  "container_load example_transform_env
     (request_id example_transform_env ''/logo.svg'' False) False = LoadNull \<and>
   fs_fallback example_transform_env \<lparr>ssr = None, html = Some True\<rparr> ''/logo.svg'' = Inr None \<and>
   checkPublicFile example_transform_env ''/logo.svg'' \<and>
   doTransform example_transform_env ''/logo.svg'' \<lparr>ssr = None, html = Some True\<rparr> new_ModuleGraph
     = (Inr None, new_ModuleGraph)"
  by (simp add: doTransform_def Let_def cached_result_def getModuleByUrl_def new_ModuleGraph_def
      request_id_def fs_fallback_def truthy_def endsWith_def)


text \<open>
  Claim C8, amended. When nothing is cached, the load hook returns \<open>null\<close> and the file
  system fallback yields no code (it is not allowed, or the file does not exist): an
  html request whose resolved id does not end in \<open>.html\<close> returns \<open>null\<close>; any other
  request fails with the public-file error when the url lies in the public directory,
  and returns \<open>null\<close> otherwise. The public-file error is never thrown for a url
  outside the public directory.
\<close>

theorem doTransform_missing_file:
  "(cached_result env g (removeTimestampQuery (graphEnv env) url0) (truthy (ssr options)) = None \<and>
    container_load env
      (request_id env (removeTimestampQuery (graphEnv env) url0) (truthy (ssr options)))
      (truthy (ssr options)) = LoadNull \<and>
    fs_fallback env options
      (cleanUrl (graphEnv env)
         (request_id env (removeTimestampQuery (graphEnv env) url0) (truthy (ssr options))))
      = Inr None \<longrightarrow>
    doTransform env url0 options g =
      (if truthy (html options) \<and>
          \<not> endsWith (request_id env (removeTimestampQuery (graphEnv env) url0)
                         (truthy (ssr options))) ''.html''
       then (Inr None, g)
       else if checkPublicFile env (removeTimestampQuery (graphEnv env) url0)
       then (Inl (PublicFileError (removeTimestampQuery (graphEnv env) url0)
                    (request_id env (removeTimestampQuery (graphEnv env) url0)
                       (truthy (ssr options)))), g)
       else (Inr None, g))) \<and>
   (fst (doTransform env url0 options g) = Inl (PublicFileError u' i') \<longrightarrow>
      checkPublicFile env (removeTimestampQuery (graphEnv env) url0))"
proof (intro conjI impI)
  assume "cached_result env g (removeTimestampQuery (graphEnv env) url0) (truthy (ssr options)) = None \<and>
    container_load env
      (request_id env (removeTimestampQuery (graphEnv env) url0) (truthy (ssr options)))
      (truthy (ssr options)) = LoadNull \<and>
    fs_fallback env options
      (cleanUrl (graphEnv env)
         (request_id env (removeTimestampQuery (graphEnv env) url0) (truthy (ssr options))))
      = Inr None"
  then show "doTransform env url0 options g =
      (if truthy (html options) \<and>
          \<not> endsWith (request_id env (removeTimestampQuery (graphEnv env) url0)
                         (truthy (ssr options))) ''.html''
       then (Inr None, g)
       else if checkPublicFile env (removeTimestampQuery (graphEnv env) url0)
       then (Inl (PublicFileError (removeTimestampQuery (graphEnv env) url0)
                    (request_id env (removeTimestampQuery (graphEnv env) url0)
                       (truthy (ssr options)))), g)
       else (Inr None, g))"
    by (simp add: doTransform_def Let_def)
next
  assume a: "fst (doTransform env url0 options g) = Inl (PublicFileError u' i')"
  show "checkPublicFile env (removeTimestampQuery (graphEnv env) url0)"
  proof (rule ccontr)
    assume n: "\<not> checkPublicFile env (removeTimestampQuery (graphEnv env) url0)"
    have "fst (doTransform env url0 options g) \<noteq> Inl (PublicFileError u' i')"
      using n finish_transform_no_public_error
      by (auto simp: doTransform_def Let_def fs_fallback_def
          split: option.splits LoadResult.splits sum.splits ReadResult.splits if_splits)
    with a show False by simp
  qed
qed

theorem doTransform_missing_file_witness:
  "cached_result example_transform_env new_ModuleGraph ''/logo.svg'' False = None \<and>
   fs_fallback example_transform_env \<lparr>ssr = None, html = None\<rparr> ''/logo.svg'' = Inr None \<and>
   checkPublicFile example_transform_env ''/logo.svg'' \<and>
   doTransform example_transform_env ''/logo.svg'' \<lparr>ssr = None, html = None\<rparr> new_ModuleGraph
     = (Inl (PublicFileError ''/logo.svg'' ''/logo.svg''), new_ModuleGraph) \<and>
   \<not> checkPublicFile example_transform_env ''/missing.js'' \<and>
   doTransform example_transform_env ''/missing.js'' \<lparr>ssr = None, html = None\<rparr> new_ModuleGraph
     = (Inr None, new_ModuleGraph)"
proof -
  let ?o = "\<lparr>ssr = None, html = None\<rparr>"
  have t: "truthy (ssr ?o) = False" "truthy (html ?o) = False" by (simp_all add: truthy_def)
  have i: "request_id example_transform_env u False = u" for u by (simp add: request_id_def)
  have c: "cached_result example_transform_env new_ModuleGraph u False = None" for u
    by (simp add: cached_result_def getModuleByUrl_def new_ModuleGraph_def)
  have f: "fs_fallback example_transform_env ?o u = Inr None" for u
    by (simp add: fs_fallback_def)
  note th = doTransform_missing_file[of example_transform_env new_ModuleGraph _ ?o, THEN conjunct1,
      rule_format, unfolded t example_transform_facts example_removeTimestampQuery i example_cleanUrl]
  have 1: "doTransform example_transform_env ''/logo.svg'' ?o new_ModuleGraph
      = (Inl (PublicFileError ''/logo.svg'' ''/logo.svg''), new_ModuleGraph)"
    using th[of "''/logo.svg''"] c f by simp
  have 2: "doTransform example_transform_env ''/missing.js'' ?o new_ModuleGraph
      = (Inr None, new_ModuleGraph)"
    using th[of "''/missing.js''"] c f by simp
  from 1 2 c f show ?thesis by simp
qed


end
